theory Spec2Isabelle
  imports Main "HOL-Library.AList" "HOL-Library.Sublist"
begin

section \<open>Text processing\<close>

subsection \<open>The pattern \<open>\b\w+\b\<close> under \<open>re.findall\<close>\<close>

text \<open>
  The predicate \<open>w\<close> says which characters are word characters. The scanner stands at a
  position of the subject string: \<open>prev\<close> says whether a character stands before the
  position and is a word character, \<open>rest\<close> is the text from the position on. \<open>\b\<close>
  holds where exactly one of the two neighbours is a word character, a missing neighbour
  counting as a non-word character.
\<close>

definition word_boundary :: "('c \<Rightarrow> bool) \<Rightarrow> bool \<Rightarrow> 'c list \<Rightarrow> bool" where
  "word_boundary w prev rest = (prev \<noteq> (rest \<noteq> [] \<and> w (hd rest)))"

text \<open>
  One match attempt at the position: \<open>\b\<close>, then \<open>\w+\<close> greedily, that is the longest
  run of word characters first and shorter non-empty ones on backtracking, each followed
  by the closing \<open>\b\<close>.
\<close>

definition match_here :: "('c \<Rightarrow> bool) \<Rightarrow> bool \<Rightarrow> 'c list \<Rightarrow> 'c list option" where
  "match_here w prev rest =
     (if word_boundary w prev rest then
        (let run = takeWhile w rest in
           find (\<lambda>m. word_boundary w (w (last m)) (drop (length m) rest))
                (map (\<lambda>k. take k run) (rev [1..<Suc (length run)])))
      else None)"

text \<open>
  \<open>findall\<close> tries the positions from left to right; after a match it goes on at the end
  of the match, otherwise at the next position.
\<close>

function findall_words :: "('c \<Rightarrow> bool) \<Rightarrow> bool \<Rightarrow> 'c list \<Rightarrow> 'c list list" where
  "findall_words w prev [] = []"
| "findall_words w prev (c # cs) =
     (case match_here w prev (c # cs) of
        Some m \<Rightarrow> m # findall_words w (w (last m)) (drop (length m) (c # cs))
      | None \<Rightarrow> findall_words w (w c) cs)"
  by pat_completeness auto
termination
proof (relation "measure (\<lambda>(w, prev, s). length s)")
  fix w :: "'c \<Rightarrow> bool" and prev :: bool and c :: 'c and cs m :: "'c list"
  define run where "run = takeWhile w (c # cs)"
  have find_in: "find P xs = Some x \<Longrightarrow> x \<in> set xs" for P and xs :: "'c list list" and x
    by (induction xs) (auto split: if_splits)
  assume "match_here w prev (c # cs) = Some m"
  then have "find (\<lambda>m. word_boundary w (w (last m)) (drop (length m) (c # cs)))
               (map (\<lambda>k. take k run) (rev [1..<Suc (length run)])) = Some m"
    unfolding run_def match_here_def Let_def by (cases "word_boundary w prev (c # cs)") simp_all
  then have "m \<in> set (map (\<lambda>k. take k run) (rev [1..<Suc (length run)]))"
    by (rule find_in)
  then obtain k where "m = take k run" "1 \<le> k" "k \<le> length run"
    by auto
  then have "m \<noteq> []"
    by auto
  then show "((w, w (last m), drop (length m) (c # cs)), w, prev, c # cs)
               \<in> measure (\<lambda>(w, prev, s). length s)"
    by simp
qed simp_all

subsection \<open>Strings as Python has them\<close>

text \<open>
  A Python \<open>str\<close> is a sequence of code points. What \<open>str.lower\<close> and the class \<open>\w\<close>
  do with a code point is read from the tables of the Unicode character database, which
  are parameters here: whether a character is alphanumeric (\<open>str.isalnum\<close>), its full
  lowercase mapping (one character can lower to several), whether it is cased, whether
  it is case-ignorable, and whether it is whitespace (\<open>str.isspace\<close>).
\<close>

type_synonym codepoint = nat

record ucd =
  alnum :: "codepoint \<Rightarrow> bool"
  lower_full :: "codepoint \<Rightarrow> codepoint list"
  cased :: "codepoint \<Rightarrow> bool"
  case_ignorable :: "codepoint \<Rightarrow> bool"
  space :: "codepoint \<Rightarrow> bool"

definition is_word :: "ucd \<Rightarrow> codepoint \<Rightarrow> bool" where
  \<comment> \<open>the class \<open>\w\<close> of a \<open>str\<close> pattern: alphanumeric or underscore\<close>
  "is_word db c = (alnum db c \<or> c = 95)"

text \<open>
  \<open>str.lower\<close> maps each character by its full lowercase mapping, but for the capital
  sigma U+03A3: it lowers to the final sigma U+03C2 when a cased character stands before
  it, case-ignorable characters skipped, and none stands after it in the same way, and
  to U+03C3 otherwise. \<open>before\<close> is the text before the character, nearest first.
\<close>

definition final_sigma :: "ucd \<Rightarrow> codepoint list \<Rightarrow> codepoint list \<Rightarrow> bool" where
  "final_sigma db before after =
     (case dropWhile (case_ignorable db) before of
        [] \<Rightarrow> False
      | c # _ \<Rightarrow>
          cased db c \<and>
          (case dropWhile (case_ignorable db) after of [] \<Rightarrow> True | c' # _ \<Rightarrow> \<not> cased db c'))"

fun lower_from :: "ucd \<Rightarrow> codepoint list \<Rightarrow> codepoint list \<Rightarrow> codepoint list" where
  "lower_from db before [] = []"
| "lower_from db before (c # rest) =
     (if c = 0x3A3 then [if final_sigma db before rest then 0x3C2 else 0x3C3]
      else lower_full db c)
     @ lower_from db (c # before) rest"

definition str_lower :: "ucd \<Rightarrow> codepoint list \<Rightarrow> codepoint list" where
  \<comment> \<open>\<open>text.lower()\<close>\<close>
  "str_lower db text = lower_from db [] text"

definition codepoints :: "string \<Rightarrow> codepoint list" where
  \<comment> \<open>a string literal of the source as a \<open>str\<close>\<close>
  "codepoints s = map of_char s"

definition stopwords :: "string set" where
  "stopwords = set [''a'', ''an'', ''the'', ''is'', ''in'', ''of'', ''for'', ''and'', ''to'', ''on'',
     ''by'', ''that'', ''it'', ''from'', ''this'', ''with'', ''as'', ''at'', ''are'', ''was'', ''were'',
     ''has'', ''have'', ''had'', ''be'', ''been'', ''but'', ''or'', ''not'', ''which'', ''will'',
     ''through'']"

definition preprocess_unicode :: "ucd \<Rightarrow> codepoint list \<Rightarrow> codepoint list list" where
  \<comment> \<open>\<open>preprocess\<close> on every \<open>str\<close>\<close>
  "preprocess_unicode db text =
     (let tokens = findall_words (is_word db) False (str_lower db text)
      in filter (\<lambda>token. token \<notin> codepoints ` stopwords) tokens)"

subsection \<open>Texts of code points below U+0100\<close>

text \<open>
  The documents and queries of the index and of the searches below are strings of
  \<open>char\<close>, a \<open>char\<close> being one code point in the range U+0000..U+00FF. On that range
  \<open>str.lower\<close> works character by character, and \<open>preprocess\<close> is \<open>preprocess_unicode\<close>
  with the tables of Python 3 on that range, which are written out here.
\<close>

definition is_word_char :: "char \<Rightarrow> bool" where
  \<comment> \<open>the class \<open>\w\<close> of a \<open>str\<close> pattern: alphanumeric or underscore\<close>
  "is_word_char c =
     (let n = (of_char c :: nat) in
        (48 \<le> n \<and> n \<le> 57) \<or> (65 \<le> n \<and> n \<le> 90) \<or> n = 95 \<or> (97 \<le> n \<and> n \<le> 122) \<or>
        n = 170 \<or> n = 178 \<or> n = 179 \<or> n = 181 \<or> n = 185 \<or> n = 186 \<or>
        (188 \<le> n \<and> n \<le> 190) \<or> (192 \<le> n \<and> n \<le> 214) \<or> (216 \<le> n \<and> n \<le> 246) \<or>
        (248 \<le> n \<and> n \<le> 255))"

definition lower_char :: "char \<Rightarrow> char" where
  "lower_char c =
     (let n = (of_char c :: nat) in
        if (65 \<le> n \<and> n \<le> 90) \<or> (192 \<le> n \<and> n \<le> 214) \<or> (216 \<le> n \<and> n \<le> 222)
        then char_of (n + 32) else c)"

definition lower :: "string \<Rightarrow> string" where
  \<comment> \<open>\<open>text.lower()\<close>\<close>
  "lower text = map lower_char text"

definition preprocess :: "string \<Rightarrow> string list" where
  "preprocess text =
     (let tokens = findall_words is_word_char False (lower text)
      in filter (\<lambda>token. token \<notin> stopwords) tokens)"

definition latin1_tables :: "ucd \<Rightarrow> bool" where
  \<comment> \<open>the tables have these entries on U+0000..U+00FF\<close>
  "latin1_tables db =
     (\<forall>c :: char. is_word db (of_char c) = is_word_char c \<and>
                  lower_full db (of_char c) = [of_char (lower_char c)])"

subsection \<open>Tokenisation as the specification words it\<close>

text \<open>
  The maximal runs of word characters of a text, in input order: separators are skipped,
  and a run goes on as long as word characters follow.
\<close>

function word_runs :: "('c \<Rightarrow> bool) \<Rightarrow> 'c list \<Rightarrow> 'c list list" where
  "word_runs w [] = []"
| "word_runs w (c # cs) =
     (if w c
      then (c # takeWhile w cs) # word_runs w (dropWhile w cs)
      else word_runs w cs)"
  by pat_completeness auto
termination
  by (relation "measure (\<lambda>(w, s). length s)") (auto simp: less_Suc_eq_le length_dropWhile_le)

definition tokenize_spec :: "ucd \<Rightarrow> codepoint list \<Rightarrow> codepoint list list" where
  \<comment> \<open>extract the runs, lowercase each one, drop the stopwords\<close>
  "tokenize_spec db text =
     filter (\<lambda>t. t \<notin> codepoints ` stopwords) (map (str_lower db) (word_runs (is_word db) text))"

text \<open>
  A text is lowered character by character when none of its characters is the capital
  sigma and each lowers to one character, a word character exactly when it is one itself.
\<close>

definition charwise :: "ucd \<Rightarrow> codepoint list \<Rightarrow> bool" where
  "charwise db text =
     list_all (\<lambda>c. c \<noteq> 0x3A3 \<and>
                (case lower_full db c of [c'] \<Rightarrow> is_word db c' = is_word db c | _ \<Rightarrow> False)) text"

text \<open>
  What the tables say of whitespace: it has no case and is no word character.
\<close>

definition whitespace_plain :: "ucd \<Rightarrow> bool" where
  "whitespace_plain db =
     (\<forall>c. space db c \<longrightarrow> c \<noteq> 0x3A3 \<and> lower_full db c = [c] \<and> \<not> is_word db c)"

text \<open>
  A term is a normalised token: a non-empty string of word characters that is its own
  lowercase form and not a stopword.
\<close>

definition is_term :: "string \<Rightarrow> bool" where
  "is_term t = (t \<noteq> [] \<and> list_all is_word_char t \<and> lower t = t \<and> t \<notin> stopwords)"

subsection \<open>Some entries of the tables\<close>

text \<open>
  The entries of Python 3 at U+0000..U+00FF, at the capital I with dot above U+0130,
  which lowers to two characters, at the combining dot above U+0307, at the Greek
  letters U+0391, U+03A3, U+03B1, U+03C2 and U+03C3, and the whole whitespace table.
  The examples read no other entry; elsewhere the tables below hold no letter and no
  case.
\<close>

definition ucd_sample :: ucd where
  "ucd_sample =
     \<lparr>alnum = (\<lambda>n. (48 \<le> n \<and> n \<le> 57) \<or> (65 \<le> n \<and> n \<le> 90) \<or> (97 \<le> n \<and> n \<le> 122) \<or>
          n = 170 \<or> n = 178 \<or> n = 179 \<or> n = 181 \<or> n = 185 \<or> n = 186 \<or>
          (188 \<le> n \<and> n \<le> 190) \<or> (192 \<le> n \<and> n \<le> 214) \<or> (216 \<le> n \<and> n \<le> 246) \<or>
          (248 \<le> n \<and> n \<le> 255) \<or>
          n = 0x130 \<or> n = 0x391 \<or> n = 0x3A3 \<or> n = 0x3B1 \<or> n = 0x3C2 \<or> n = 0x3C3),
      lower_full = (\<lambda>n. if (65 \<le> n \<and> n \<le> 90) \<or> (192 \<le> n \<and> n \<le> 214) \<or> (216 \<le> n \<and> n \<le> 222)
          then [n + 32]
          else if n = 0x130 then [0x69, 0x307]
          else if n = 0x391 then [0x3B1]
          else if n = 0x3A3 then [0x3C3]
          else [n]),
      cased = (\<lambda>n. (65 \<le> n \<and> n \<le> 90) \<or> (97 \<le> n \<and> n \<le> 122) \<or> n = 170 \<or> n = 181 \<or>
          n = 186 \<or> (192 \<le> n \<and> n \<le> 214) \<or> (216 \<le> n \<and> n \<le> 246) \<or> (248 \<le> n \<and> n \<le> 255) \<or>
          n = 0x130 \<or> n = 0x391 \<or> n = 0x3A3 \<or> n = 0x3B1 \<or> n = 0x3C2 \<or> n = 0x3C3),
      case_ignorable = (\<lambda>n. n = 39 \<or> n = 46 \<or> n = 58 \<or> n = 94 \<or> n = 96 \<or> n = 168 \<or>
          n = 173 \<or> n = 175 \<or> n = 180 \<or> n = 183 \<or> n = 184 \<or> n = 0x307),
      space = (\<lambda>n. (9 \<le> n \<and> n \<le> 13) \<or> (28 \<le> n \<and> n \<le> 32) \<or> n = 133 \<or> n = 160 \<or>
          n = 0x1680 \<or> (0x2000 \<le> n \<and> n \<le> 0x200A) \<or> n = 0x2028 \<or> n = 0x2029 \<or>
          n = 0x202F \<or> n = 0x205F \<or> n = 0x3000)\<rparr>"

section \<open>Loading the documents\<close>

text \<open>
  What \<open>load_documents_from_folder\<close> asks of its environment: the listing of a folder,
  the joining of a folder and a file name into a path, and the reading of a file as text.
  A call that raises is \<open>Inl\<close> of the exception's message.
\<close>

record os_env =
  listdir :: "string \<Rightarrow> string + string list"
  path_join :: "string \<Rightarrow> string \<Rightarrow> string"
  read_text :: "string \<Rightarrow> string + string"

type_synonym docid = string

definition endswith :: "string \<Rightarrow> string \<Rightarrow> bool" where
  "endswith s ending = suffix ending s"

text \<open>
  The body of the \<open>try\<close>: the loop over the listing. The first call that raises ends
  it, and what \<open>documents\<close> held by then is lost. \<open>documents[filename] = \<dots>\<close> is the
  update of a dict: a new key goes to the end, a bound key keeps its place.
\<close>

fun read_files :: "os_env \<Rightarrow> string \<Rightarrow> string list \<Rightarrow> (docid \<times> string) list
    \<Rightarrow> string + (docid \<times> string) list" where
  "read_files env folder_path [] documents = Inr documents"
| "read_files env folder_path (filename # filenames) documents =
     (if endswith filename ''.txt'' then
        (case read_text env (path_join env folder_path filename) of
           Inl e \<Rightarrow> Inl e
         | Inr content \<Rightarrow>
             read_files env folder_path filenames (AList.update filename content documents))
      else read_files env folder_path filenames documents)"

definition try_load :: "os_env \<Rightarrow> string \<Rightarrow> string + (docid \<times> string) list" where
  "try_load env folder_path =
     (case listdir env folder_path of
        Inl e \<Rightarrow> Inl e
      | Inr filenames \<Rightarrow> read_files env folder_path filenames [])"

text \<open>
  The function returns a dict and may show an error dialog: the result is the list of
  the dialogs shown (their texts) and the value returned.
\<close>

definition load_documents_from_folder ::
    "os_env \<Rightarrow> string \<Rightarrow> string list \<times> (docid \<times> string) list" where
  "load_documents_from_folder env folder_path =
     (case try_load env folder_path of
        Inl e \<Rightarrow> ([''Error reading documents: '' @ e], [])
      | Inr documents \<Rightarrow> ([], documents))"

text \<open>
  A listed file makes the load fail when it is a \<open>.txt\<close> file and reading it raises.
\<close>

definition read_fails :: "os_env \<Rightarrow> string \<Rightarrow> string \<Rightarrow> bool" where
  "read_fails env folder_path filename =
     (endswith filename ''.txt'' \<and> isl (read_text env (path_join env folder_path filename)))"

subsection \<open>Some environments\<close>

text \<open>
  A folder that cannot be listed, an empty folder, a folder whose files can be read,
  and a folder with a file that cannot.
\<close>

definition unreadable_env :: os_env where
  "unreadable_env =
     \<lparr>listdir = (\<lambda>p. Inl ''[Errno 2] No such file or directory''),
      path_join = (\<lambda>a b. a @ ''/'' @ b),
      read_text = (\<lambda>p. Inl ''[Errno 2] No such file or directory'')\<rparr>"

definition empty_env :: os_env where
  "empty_env =
     \<lparr>listdir = (\<lambda>p. Inr []),
      path_join = (\<lambda>a b. a @ ''/'' @ b),
      read_text = (\<lambda>p. Inl ''[Errno 2] No such file or directory'')\<rparr>"

definition readable_env :: os_env where
  "readable_env =
     \<lparr>listdir = (\<lambda>p. Inr [''a.txt'', ''notes.md'']),
      path_join = (\<lambda>a b. a @ ''/'' @ b),
      read_text = (\<lambda>p. if p = ''docs/a.txt'' then Inr ''the cat sat''
                         else Inl ''[Errno 13] Permission denied'')\<rparr>"

definition partly_unreadable_env :: os_env where
  "partly_unreadable_env =
     \<lparr>listdir = (\<lambda>p. Inr [''a.txt'', ''notes.md'', ''b.txt'', ''c.txt'']),
      path_join = (\<lambda>a b. a @ ''/'' @ b),
      read_text = (\<lambda>p. if p = ''docs/a.txt'' then Inr ''the cat sat''
                         else if p = ''docs/b.txt'' then Inl ''[Errno 13] Permission denied''
                         else Inl ''[Errno 5] Input/output error'')\<rparr>"

section \<open>The inverted index and the searches\<close>

text \<open>
  A Python set is a mutable object that the program holds by reference, and the
  inverted index is a \<open>defaultdict(set)\<close>. The heap lists the set objects; a reference
  is a position in it, and a new object goes to its end. The state is the heap and the
  items of the inverted index in insertion order, each term bound to the reference of
  its posting set.
\<close>

type_synonym ref = nat

record state =
  inverted_index :: "(string \<times> ref) list"
  heap :: "docid set list"

definition new_set :: "docid set \<Rightarrow> state \<Rightarrow> ref \<times> state" where
  "new_set v s = (length (heap s), s\<lparr>heap := heap s @ [v]\<rparr>)"

definition getitem :: "string \<Rightarrow> state \<Rightarrow> ref \<times> state" where
  \<comment> \<open>\<open>inverted_index[key]\<close>: the default factory binds a missing key to a new empty set\<close>
  "getitem key s =
     (case map_of (inverted_index s) key of
        Some r \<Rightarrow> (r, s)
      | None \<Rightarrow>
          (let (r, s) = new_set {} s
           in (r, s\<lparr>inverted_index := inverted_index s @ [(key, r)]\<rparr>)))"

definition set_add :: "ref \<Rightarrow> docid \<Rightarrow> state \<Rightarrow> state" where
  \<comment> \<open>\<open>.add(doc_id)\<close> changes the set object in place\<close>
  "set_add r doc_id s = s\<lparr>heap := (heap s)[r := insert doc_id (heap s ! r)]\<rparr>"

fun add_tokens :: "docid \<Rightarrow> string list \<Rightarrow> state \<Rightarrow> state" where
  "add_tokens doc_id [] s = s"
| "add_tokens doc_id (token # tokens) s =
     (let (r, s) = getitem token s
      in add_tokens doc_id tokens (set_add r doc_id s))"

fun add_documents :: "(docid \<times> string) list \<Rightarrow> state \<Rightarrow> state" where
  "add_documents [] s = s"
| "add_documents ((doc_id, text) # items) s =
     (let tokens = preprocess text
      in add_documents items (add_tokens doc_id tokens s))"

definition create_inverted_index :: "(docid \<times> string) list \<Rightarrow> docid set list \<Rightarrow> state" where
  \<comment> \<open>\<open>documents\<close> is the dict's items in order; \<open>h\<close> is the heap at the call\<close>
  "create_inverted_index documents h = add_documents documents \<lparr>inverted_index = [], heap = h\<rparr>"

fun and_loop :: "string list \<Rightarrow> ref \<Rightarrow> state \<Rightarrow> ref \<times> state" where
  "and_loop [] result s = (result, s)"
| "and_loop (t # terms) result s =
     (let (p, s) = getitem t s;
          (result, s) = new_set (heap s ! result \<inter> heap s ! p) s
      in and_loop terms result s)"

definition boolean_and_search :: "string \<Rightarrow> state \<Rightarrow> ref \<times> state" where
  "boolean_and_search query s =
     (let query_terms = preprocess query in
      if query_terms = [] then new_set {} s
      else (let (result, s) = getitem (hd query_terms) s
            in and_loop (tl query_terms) result s))"

fun or_loop :: "string list \<Rightarrow> ref \<Rightarrow> state \<Rightarrow> ref \<times> state" where
  "or_loop [] result s = (result, s)"
| "or_loop (t # terms) result s =
     (let (p, s) = getitem t s;
          (result, s) = new_set (heap s ! result \<union> heap s ! p) s
      in or_loop terms result s)"

definition boolean_or_search :: "string \<Rightarrow> state \<Rightarrow> ref \<times> state" where
  "boolean_or_search query s =
     (let query_terms = preprocess query in
      if query_terms = [] then new_set {} s
      else (let (result, s) = new_set {} s
            in or_loop query_terms result s))"

fun not_loop :: "string list \<Rightarrow> ref \<Rightarrow> state \<Rightarrow> ref \<times> state" where
  "not_loop [] result s = (result, s)"
| "not_loop (t # terms) result s =
     (let (p, s) = getitem t s;
          (result, s) = new_set (heap s ! result - heap s ! p) s
      in not_loop terms result s)"

definition boolean_not_search :: "string \<Rightarrow> ref \<Rightarrow> state \<Rightarrow> ref \<times> state" where
  \<comment> \<open>\<open>all_docs\<close> is the reference of the caller's set; the index is in the state\<close>
  "boolean_not_search query all_docs s =
     (let query_terms = preprocess query in
      if query_terms = [] then new_set {} s
      else (let (result, s) = new_set (heap s ! all_docs) s
            in not_loop query_terms result s))"

subsection \<open>Reading a state\<close>

definition valid :: "state \<Rightarrow> bool" where
  \<comment> \<open>every reference held by the index is to an object of the heap\<close>
  "valid s = list_all (\<lambda>(key, r). r < length (heap s)) (inverted_index s)"

definition unshared :: "state \<Rightarrow> bool" where
  \<comment> \<open>no two terms of the index are bound to the same set object\<close>
  "unshared s = distinct (map snd (inverted_index s))"

definition posting :: "state \<Rightarrow> string \<Rightarrow> docid set" where
  \<comment> \<open>the posting set of a term: empty for a term that is not a key\<close>
  "posting s key = (case map_of (inverted_index s) key of None \<Rightarrow> {} | Some r \<Rightarrow> heap s ! r)"

definition keys :: "state \<Rightarrow> string set" where
  "keys s = fst ` set (inverted_index s)"

definition value_of :: "ref \<times> state \<Rightarrow> docid set" where
  \<comment> \<open>the set a search returns a reference to, read in the state the search leaves\<close>
  "value_of out = heap (snd out) ! fst out"

text \<open>
  What every step of a search keeps: the references of the index stay good, the objects
  and the items that were there are still there, unchanged and in their places, and
  every term has the posting set it had.
\<close>

definition grows :: "state \<Rightarrow> state \<Rightarrow> bool" where
  "grows s s' =
     (valid s' \<and> prefix (heap s) (heap s') \<and> prefix (inverted_index s) (inverted_index s') \<and>
      posting s' = posting s)"

subsection \<open>A small collection\<close>

text \<open>
  Three documents, indexed on a heap that holds the set of their identifiers at
  reference 0.
\<close>

definition scenario :: state where
  "scenario = create_inverted_index
     [(''d1'', ''the cat sat''), (''d2'', ''the dog sat''), (''d3'', ''cat and dog'')]
     [{''d1'', ''d2'', ''d3''}]"

section \<open>The tokeniser\<close>

text \<open>
  An attempt matches exactly where a run of word characters starts, and then it matches
  the whole run: the closing \<open>\b\<close> fails after every shorter one.
\<close>

lemma match_here_eq:
  "match_here w prev rest =
     (if \<not> prev \<and> rest \<noteq> [] \<and> w (hd rest) then Some (takeWhile w rest) else None)"
proof (cases "\<not> prev \<and> rest \<noteq> [] \<and> w (hd rest)")
  case True
  define run where "run = takeWhile w rest"
  have run_ne: "run \<noteq> []"
    using True by (simp add: run_def takeWhile_eq_Nil_iff)
  have all_w: "\<forall>x \<in> set run. w x"
    by (auto simp: run_def dest: set_takeWhileD)
  then have last_w: "w (last run)"
    using run_ne last_in_set by blast
  have after: "drop (length run) rest = dropWhile w rest"
    by (simp add: run_def dropWhile_eq_drop)
  have closing: "word_boundary w (w (last run)) (drop (length run) rest)"
    using last_w hd_dropWhile[of w rest] by (auto simp: word_boundary_def after)
  have cands: "map (\<lambda>k. take k run) (rev [1..<Suc (length run)])
                 = run # map (\<lambda>k. take k run) (rev [1..<length run])"
    using run_ne by (cases run) simp_all
  have "word_boundary w prev rest"
    using True by (simp add: word_boundary_def)
  then show ?thesis
    using True closing cands unfolding match_here_def Let_def run_def[symmetric] by simp
next
  case False
  show ?thesis
  proof (cases "word_boundary w prev rest")
    case wb: True
    with False have "takeWhile w rest = []"
      by (auto simp: word_boundary_def takeWhile_eq_Nil_iff)
    then show ?thesis using False by (simp add: match_here_def)
  next
    case wb: False
    then show ?thesis using False by (simp add: match_here_def)
  qed
qed

lemma findall_words_runs:
  "findall_words w prev s = word_runs w (if prev then dropWhile w s else s)"
proof (induction w prev s rule: findall_words.induct)
  case (1 w prev)
  then show ?case by simp
next
  case (2 w prev c cs)
  show ?case
  proof (cases "\<not> prev \<and> w c")
    case True
    let ?run = "takeWhile w (c # cs)"
    have m: "match_here w prev (c # cs) = Some ?run"
      using True by (simp add: match_here_eq)
    have lw: "w (last ?run)"
      using True by (metis last_in_set list.discI set_takeWhileD takeWhile.simps(2))
    have "findall_words w prev (c # cs) = ?run # findall_words w True (drop (length ?run) (c # cs))"
      using m lw by simp
    also have "findall_words w True (drop (length ?run) (c # cs))
                 = word_runs w (dropWhile w (drop (length ?run) (c # cs)))"
      using "2.IH"(2)[OF m] lw by simp
    also have "drop (length ?run) (c # cs) = dropWhile w (c # cs)"
      by (simp only: dropWhile_eq_drop)
    finally show ?thesis using True by simp
  next
    case False
    have m: "match_here w prev (c # cs) = None"
      using False by (auto simp: match_here_eq)
    have "findall_words w prev (c # cs) = findall_words w (w c) cs"
      using m by simp
    also have "\<dots> = word_runs w (if w c then dropWhile w cs else cs)"
      using "2.IH"(1)[OF m] .
    finally show ?thesis using False by auto
  qed
qed

text \<open>
  Runs under a map of the characters that keeps word characters and separators apart.
\<close>

lemma word_runs_map:
  "\<forall>c \<in> set s. w' (f c) = w c \<Longrightarrow> word_runs w' (map f s) = map (map f) (word_runs w s)"
proof (induction w s rule: word_runs.induct)
  case (1 w)
  then show ?case by simp
next
  case (2 w c cs)
  have agree: "\<forall>x \<in> set cs. (w' \<circ> f) x = w x"
    using "2.prems" by simp
  have tw: "takeWhile w' (map f cs) = map f (takeWhile w cs)"
    using agree by (simp add: takeWhile_map cong: takeWhile_cong)
  have dw: "dropWhile w' (map f cs) = map f (dropWhile w cs)"
    using agree by (simp add: dropWhile_map cong: dropWhile_cong)
  have rest: "\<forall>x \<in> set (dropWhile w cs). w' (f x) = w x"
    using "2.prems" by (auto dest: set_dropWhileD)
  show ?case
  proof (cases "w c")
    case True
    then have "w' (f c)" using "2.prems" by simp
    then show ?thesis
      using True "2.IH"(1)[OF True rest] by (simp add: tw dw)
  next
    case False
    then have "\<not> w' (f c)" using "2.prems" by simp
    moreover have "\<forall>x \<in> set cs. w' (f x) = w x"
      using "2.prems" by simp
    ultimately show ?thesis
      using False "2.IH"(2)[OF False] by simp
  qed
qed

lemma word_runs_no_word: "\<forall>c \<in> set s. \<not> w c \<Longrightarrow> word_runs w s = []"
  by (induction s) auto

lemma word_runs_word_sep:
  assumes "r \<noteq> []" and "\<forall>c \<in> set r. w c" and "\<not> w sep"
  shows "word_runs w (r @ sep # rest) = r # word_runs w rest"
proof -
  obtain c r' where r: "r = c # r'"
    using assms(1) by (cases r) auto
  have all: "\<forall>x \<in> set r'. w x" and c: "w c"
    using assms(2) r by auto
  have tw: "takeWhile w (r' @ sep # rest) = r'"
    using all assms(3) by (simp add: takeWhile_append2)
  have dw: "dropWhile w (r' @ sep # rest) = sep # rest"
    using all assms(3) by (simp add: dropWhile_append2)
  show ?thesis
    using c assms(3) by (simp add: r tw dw)
qed

lemma word_runs_word:
  assumes "r \<noteq> []" and "\<forall>c \<in> set r. w c"
  shows "word_runs w r = [r]"
proof -
  obtain c r' where r: "r = c # r'"
    using assms(1) by (cases r) auto
  have all: "\<forall>x \<in> set r'. w x" and c: "w c"
    using assms(2) r by auto
  have tw: "takeWhile w r' = r'" and dw: "dropWhile w r' = []"
    using all by simp_all
  show ?thesis
    using c by (simp add: r tw dw)
qed

lemma word_runs_words:
  "r \<in> set (word_runs w s) \<Longrightarrow> r \<noteq> [] \<and> (\<forall>c \<in> set r. w c) \<and> set r \<subseteq> set s"
proof (induction w s rule: word_runs.induct)
  case (1 w)
  then show ?case by simp
next
  case (2 w c cs)
  show ?case
  proof (cases "w c")
    case False
    with "2.prems" have "r \<in> set (word_runs w cs)" by simp
    then have "r \<noteq> [] \<and> (\<forall>c \<in> set r. w c) \<and> set r \<subseteq> set cs"
      by (rule "2.IH"(2)[OF False])
    then show ?thesis by auto
  next
    case True
    with "2.prems" consider "r = c # takeWhile w cs"
      | "r \<in> set (word_runs w (dropWhile w cs))"
      by auto
    then show ?thesis
    proof cases
      case 1
      have "\<forall>x \<in> set (takeWhile w cs). w x \<and> x \<in> set cs"
        by (blast dest: set_takeWhileD)
      then show ?thesis using True 1 by auto
    next
      case 2
      then have "r \<noteq> [] \<and> (\<forall>c \<in> set r. w c) \<and> set r \<subseteq> set (dropWhile w cs)"
        by (rule "2.IH"(1)[OF True])
      moreover have "set (dropWhile w cs) \<subseteq> set cs"
        by (blast dest: set_dropWhileD)
      ultimately show ?thesis by auto
    qed
  qed
qed

subsection \<open>On texts of code points below U+0100\<close>

lemma is_word_lower_char: "is_word_char (lower_char c) = is_word_char c"
proof -
  have lt: "(of_char c :: nat) < 256" by simp
  show ?thesis
    unfolding is_word_char_def lower_char_def Let_def
    using lt by auto
qed

lemma word_runs_lower:
  "word_runs is_word_char (map lower_char s) = map (map lower_char) (word_runs is_word_char s)"
  by (rule word_runs_map) (simp add: is_word_lower_char)

lemma preprocess_runs:
  "preprocess text = filter (\<lambda>t. t \<notin> stopwords) (word_runs is_word_char (lower text))"
  by (simp add: preprocess_def findall_words_runs)

lemma preprocess_two_terms:
  assumes "is_term t1" and "is_term t2"
  shows "preprocess (t1 @ '' '' @ t2) = [t1, t2]"
proof -
  have sp: "\<not> is_word_char CHR '' ''" "lower_char CHR '' '' = CHR '' ''"
    by (simp_all add: is_word_char_def lower_char_def)
  have l: "lower (t1 @ CHR '' '' # t2) = t1 @ CHR '' '' # t2"
    using assms sp(2) by (simp add: is_term_def lower_def)
  have w1: "t1 \<noteq> []" "\<forall>c \<in> set t1. is_word_char c" and w2: "t2 \<noteq> []" "\<forall>c \<in> set t2. is_word_char c"
    using assms by (simp_all add: is_term_def list_all_iff)
  have "word_runs is_word_char (t1 @ CHR '' '' # t2) = [t1, t2]"
    by (simp add: word_runs_word_sep[OF w1 sp(1)] word_runs_word[OF w2])
  then show ?thesis
    using assms by (simp add: preprocess_runs l is_term_def)
qed

lemma lower_char_idem: "lower_char (lower_char c) = lower_char c"
proof -
  have lt: "(of_char c :: nat) < 256" by simp
  show ?thesis
    unfolding lower_char_def Let_def using lt by auto
qed

lemma preprocess_terms: "t \<in> set (preprocess s) \<Longrightarrow> is_term t"
proof -
  assume "t \<in> set (preprocess s)"
  then have ns: "t \<notin> stopwords" and "t \<in> set (map lower (word_runs is_word_char s))"
    by (simp_all add: preprocess_runs lower_def [abs_def] word_runs_lower)
  then obtain r where r: "r \<in> set (word_runs is_word_char s)" and t: "t = lower r"
    by auto
  have "t \<noteq> []" "\<forall>c \<in> set t. is_word_char c"
    using word_runs_words[OF r] by (auto simp: t lower_def is_word_lower_char)
  moreover have "lower t = t"
    by (simp add: t lower_def lower_char_idem)
  ultimately show "is_term t"
    using ns by (simp add: is_term_def list_all_iff)
qed

subsection \<open>On every text\<close>

lemma preprocess_unicode_runs:
  "preprocess_unicode db text =
     filter (\<lambda>t. t \<notin> codepoints ` stopwords) (word_runs (is_word db) (str_lower db text))"
  by (simp add: preprocess_unicode_def findall_words_runs)

lemma lower_from_charwise:
  "charwise db s \<Longrightarrow> lower_from db before s = map (\<lambda>c. hd (lower_full db c)) s"
proof (induction s arbitrary: before)
  case Nil
  then show ?case by simp
next
  case (Cons c s)
  from Cons.prems have c: "c \<noteq> 0x3A3" and rest: "charwise db s"
    and e: "case lower_full db c of [c'] \<Rightarrow> is_word db c' = is_word db c | _ \<Rightarrow> False"
    by (simp_all add: charwise_def)
  have "lower_full db c = [hd (lower_full db c)]"
  proof (cases "lower_full db c")
    case Nil
    with e show ?thesis by simp
  next
    case (Cons c' cs)
    with e show ?thesis by (cases cs) simp_all
  qed
  then show ?case
    using c Cons.IH[OF rest] by simp
qed

lemma charwise_subset: "charwise db text \<Longrightarrow> set r \<subseteq> set text \<Longrightarrow> charwise db r"
  by (auto simp: charwise_def list_all_iff)

lemma charwise_word:
  assumes "charwise db s" and "c \<in> set s"
  shows "is_word db (hd (lower_full db c)) = is_word db c"
proof -
  from assms have e: "case lower_full db c of [c'] \<Rightarrow> is_word db c' = is_word db c | _ \<Rightarrow> False"
    by (simp add: charwise_def list_all_iff)
  show ?thesis
  proof (cases "lower_full db c")
    case Nil
    with e show ?thesis by simp
  next
    case (Cons c' cs)
    with e show ?thesis by (cases cs) simp_all
  qed
qed

lemma preprocess_unicode_charwise:
  assumes "charwise db text"
  shows "preprocess_unicode db text = tokenize_spec db text"
proof -
  let ?l = "\<lambda>c. hd (lower_full db c)"
  have low: "str_lower db text = map ?l text"
    using assms by (simp add: str_lower_def lower_from_charwise)
  have "word_runs (is_word db) (map ?l text) = map (map ?l) (word_runs (is_word db) text)"
    using assms by (intro word_runs_map) (simp add: charwise_word)
  moreover have "map (map ?l) (word_runs (is_word db) text)
                   = map (str_lower db) (word_runs (is_word db) text)"
  proof (rule map_cong[OF refl])
    fix r assume "r \<in> set (word_runs (is_word db) text)"
    then have "set r \<subseteq> set text"
      using word_runs_words by blast
    then have "charwise db r"
      by (rule charwise_subset[OF assms])
    then show "map ?l r = str_lower db r"
      by (simp add: str_lower_def lower_from_charwise)
  qed
  ultimately show ?thesis
    by (simp add: preprocess_unicode_runs tokenize_spec_def low)
qed

lemma lower_from_plain:
  "\<forall>c \<in> set s. c \<noteq> 0x3A3 \<and> lower_full db c = [c] \<Longrightarrow> lower_from db before s = s"
  by (induction s arbitrary: before) auto

lemma preprocess_unicode_whitespace:
  assumes "whitespace_plain db" and "\<forall>c \<in> set text. space db c"
  shows "preprocess_unicode db text = []"
proof -
  have plain: "\<forall>c \<in> set text. c \<noteq> 0x3A3 \<and> lower_full db c = [c]"
    and sep: "\<forall>c \<in> set text. \<not> is_word db c"
    using assms by (auto simp: whitespace_plain_def)
  have "str_lower db text = text"
    using plain by (simp add: str_lower_def lower_from_plain)
  then show ?thesis
    using sep by (simp add: preprocess_unicode_runs word_runs_no_word)
qed

text \<open>
  On a text of code points below U+0100, for tables that have the entries written out
  above, \<open>preprocess_unicode\<close> is \<open>preprocess\<close>.
\<close>

lemma inj_codepoints: "inj codepoints"
  unfolding codepoints_def [abs_def] by (intro inj_mapI injI) simp

lemma preprocess_latin1:
  assumes "latin1_tables db"
  shows "preprocess_unicode db (codepoints s) = map codepoints (preprocess s)"
proof -
  have w: "is_word db (of_char c) = is_word_char c"
    and l: "lower_full db (of_char c) = [of_char (lower_char c)]" for c :: char
    using assms by (simp_all add: latin1_tables_def)
  have ne: "(of_char c :: nat) \<noteq> 0x3A3" for c :: char
  proof
    assume "(of_char c :: nat) = 0x3A3"
    moreover have "(of_char c :: nat) < 256" by simp
    ultimately show False by simp
  qed
  have low: "lower_from db before (codepoints t) = codepoints (lower t)" for before t
    by (induction t arbitrary: before) (simp_all add: codepoints_def lower_def l ne)
  have runs: "word_runs (is_word db) (codepoints t) = map codepoints (word_runs is_word_char t)" for t
    unfolding codepoints_def [abs_def] by (rule word_runs_map) (simp add: w)
  have stop: "(codepoints t \<notin> codepoints ` stopwords) = (t \<notin> stopwords)" for t
    by (simp add: inj_image_mem_iff[OF inj_codepoints])
  show ?thesis
    by (simp add: preprocess_unicode_runs preprocess_runs str_lower_def low runs filter_map
        comp_def stop)
qed

lemma charwise_latin1:
  assumes "latin1_tables db"
  shows "charwise db (codepoints s)"
proof -
  have "c \<noteq> 0x3A3 \<and>
        (case lower_full db c of [c'] \<Rightarrow> is_word db c' = is_word db c | _ \<Rightarrow> False)"
    if "c \<in> set (codepoints s)" for c
  proof -
    from that obtain x :: char where c: "c = of_char x"
      by (auto simp: codepoints_def)
    have "c \<noteq> 0x3A3"
    proof
      assume "c = 0x3A3"
      then have "(of_char x :: nat) = 0x3A3" by (simp add: c)
      moreover have "(of_char x :: nat) < 256" by simp
      ultimately show False by simp
    qed
    moreover have "lower_full db c = [of_char (lower_char x)]"
      and "is_word db (of_char (lower_char x)) = is_word db c"
      using assms by (simp_all add: latin1_tables_def c is_word_lower_char)
    ultimately show ?thesis by simp
  qed
  then show ?thesis
    by (simp add: charwise_def list_all_iff)
qed

lemma ucd_sample_latin1: "latin1_tables ucd_sample"
  unfolding latin1_tables_def
proof (intro allI conjI)
  fix c :: char
  define n where "n = (of_char c :: nat)"
  have lt: "n < 256" by (simp add: n_def)
  have w: "is_word ucd_sample n = is_word_char c"
    unfolding is_word_def is_word_char_def ucd_sample_def Let_def n_def[symmetric]
    using lt by auto
  then show "is_word ucd_sample (of_char c) = is_word_char c"
    by (simp add: n_def)
  have nc: "(of_char c :: nat) = n" by (simp add: n_def)
  have "lower_full ucd_sample n = [of_char (lower_char c)]"
    unfolding lower_char_def ucd_sample_def Let_def
    using lt by (auto simp: nc)
  then show "lower_full ucd_sample (of_char c) = [of_char (lower_char c)]"
    by (simp add: n_def)
qed

lemma ucd_sample_whitespace: "whitespace_plain ucd_sample"
  unfolding whitespace_plain_def is_word_def ucd_sample_def by auto

text \<open>
  C6. The claim, that on every input string the tokens are the maximal runs of word
  characters of the input, each one lowercased, fails. The code lowercases the whole
  text and extracts the runs after that. The capital I with dot above U+0130 is a word
  character that lowers to \<open>i\<close> and the combining dot above U+0307, which is no word
  character, so the text \<open>U+0130 stanbul\<close> has the two tokens \<open>i\<close> and \<open>stanbul\<close>
  where the claim has one token. The capital sigma lowers by what stands around it in
  the whole text, not in its run: after the Greek capital alpha and an apostrophe the
  code gives the final sigma, the claim the other one.
\<close>

theorem preprocess_tokenize_spec_counterexample:
  "preprocess_unicode ucd_sample (0x130 # codepoints ''stanbul'')
     = [[0x69], codepoints ''stanbul''] \<and>
   tokenize_spec ucd_sample (0x130 # codepoints ''stanbul'')
     = [0x69 # 0x307 # codepoints ''stanbul''] \<and>
   preprocess_unicode ucd_sample (0x130 # codepoints ''stanbul'')
     \<noteq> tokenize_spec ucd_sample (0x130 # codepoints ''stanbul'') \<and>
   preprocess_unicode ucd_sample [0x391, 0x27, 0x3A3] = [[0x3B1], [0x3C2]] \<and>
   tokenize_spec ucd_sample [0x391, 0x27, 0x3A3] = [[0x3B1], [0x3C3]] \<and>
   preprocess_unicode ucd_sample [0x391, 0x27, 0x3A3] \<noteq> tokenize_spec ucd_sample [0x391, 0x27, 0x3A3]"
proof -
  have a: "preprocess_unicode ucd_sample (0x130 # codepoints ''stanbul'')
     = [[0x69], codepoints ''stanbul'']"
    by code_simp
  have b: "tokenize_spec ucd_sample (0x130 # codepoints ''stanbul'')
     = [0x69 # 0x307 # codepoints ''stanbul'']"
    by code_simp
  have c: "preprocess_unicode ucd_sample [0x391, 0x27, 0x3A3] = [[0x3B1], [0x3C2]]"
    by code_simp
  have d: "tokenize_spec ucd_sample [0x391, 0x27, 0x3A3] = [[0x3B1], [0x3C3]]"
    by code_simp
  show ?thesis
    unfolding a b c d by simp
qed

text \<open>
  C6, amended. On every input string, whatever the tables, the tokens are the maximal
  runs of word characters of the lowercased input, in input order, without those that
  are stopwords; the result is a list, so a term that occurs twice is there twice, and
  the function is total: no input raises. On an input that is lowered character by
  character, as every string of ASCII or Latin-1 characters is, these are the maximal
  runs of the input, each one lowercased, as the claim has it. An input of whitespace
  only (the empty input is one) gives the empty list.
\<close>

theorem preprocess_unicode_tokens:
  "preprocess_unicode db text
     = filter (\<lambda>t. t \<notin> codepoints ` stopwords) (word_runs (is_word db) (str_lower db text)) \<and>
   (charwise db text \<longrightarrow> preprocess_unicode db text = tokenize_spec db text) \<and>
   (whitespace_plain db \<and> (\<forall>c \<in> set text. space db c) \<longrightarrow> preprocess_unicode db text = [])"
  using preprocess_unicode_runs preprocess_unicode_charwise preprocess_unicode_whitespace
  by blast

theorem preprocess_unicode_tokens_witness:
  "charwise ucd_sample (codepoints ''The cat, the CAT!'') \<and>
   preprocess_unicode ucd_sample (codepoints ''The cat, the CAT!'')
     = [codepoints ''cat'', codepoints ''cat''] \<and>
   whitespace_plain ucd_sample \<and>
   space ucd_sample 32 \<and> space ucd_sample 9 \<and> space ucd_sample 0x3000 \<and>
   preprocess_unicode ucd_sample [32, 9, 0x3000] = [] \<and>
   preprocess_unicode ucd_sample (0x130 # codepoints ''stanbul'')
     = [[0x69], codepoints ''stanbul'']"
proof -
  have cw: "charwise ucd_sample (codepoints ''The cat, the CAT!'')"
    by code_simp
  have ts: "tokenize_spec ucd_sample (codepoints ''The cat, the CAT!'')
     = [codepoints ''cat'', codepoints ''cat'']"
    by code_simp
  have p1: "preprocess_unicode ucd_sample (codepoints ''The cat, the CAT!'')
     = [codepoints ''cat'', codepoints ''cat'']"
    using preprocess_unicode_tokens[of ucd_sample "codepoints ''The cat, the CAT!''",
        THEN conjunct2, THEN conjunct1, THEN mp, OF cw] ts
    by (rule trans)
  have sp: "space ucd_sample 32" "space ucd_sample 9" "space ucd_sample 0x3000"
    by (simp_all add: ucd_sample_def)
  then have all: "\<forall>c \<in> set [32, 9, 0x3000]. space ucd_sample c"
    by simp
  have p2: "preprocess_unicode ucd_sample [32, 9, 0x3000] = []"
    using preprocess_unicode_tokens[of ucd_sample "[32, 9, 0x3000]"] ucd_sample_whitespace all
    by blast
  have runs: "filter (\<lambda>t. t \<notin> codepoints ` stopwords)
      (word_runs (is_word ucd_sample) (str_lower ucd_sample (0x130 # codepoints ''stanbul'')))
     = [[0x69], codepoints ''stanbul'']"
    by code_simp
  have p3: "preprocess_unicode ucd_sample (0x130 # codepoints ''stanbul'')
     = [[0x69], codepoints ''stanbul'']"
    using preprocess_unicode_tokens[of ucd_sample "0x130 # codepoints ''stanbul''",
        THEN conjunct1] runs
    by (rule trans)
  show ?thesis
    using cw p1 ucd_sample_whitespace sp p2 p3 by (simp only: simp_thms)
qed

section \<open>Steps on the state\<close>

lemma valid_iff: "valid s \<longleftrightarrow> (\<forall>k r. (k, r) \<in> set (inverted_index s) \<longrightarrow> r < length (heap s))"
  by (auto simp: valid_def list_all_iff)

lemma valid_map_of: "valid s \<Longrightarrow> map_of (inverted_index s) k = Some r \<Longrightarrow> r < length (heap s)"
  by (auto simp: valid_iff dest: map_of_SomeD)

lemma new_set_simps [simp]:
  "fst (new_set v s) = length (heap s)"
  "heap (snd (new_set v s)) = heap s @ [v]"
  "inverted_index (snd (new_set v s)) = inverted_index s"
  by (simp_all add: new_set_def)

lemma grows_refl: "valid s \<Longrightarrow> grows s s"
  by (simp add: grows_def)

lemma grows_trans: "grows a b \<Longrightarrow> grows b c \<Longrightarrow> grows a c"
  by (auto simp: grows_def)

lemma grows_nth: "grows s s' \<Longrightarrow> r < length (heap s) \<Longrightarrow> heap s' ! r = heap s ! r"
  by (auto simp: grows_def prefix_def nth_append)

lemma grows_length: "grows s s' \<Longrightarrow> length (heap s) \<le> length (heap s')"
  by (auto simp: grows_def prefix_def)

lemma grows_new_set: "valid s \<Longrightarrow> grows s (snd (new_set v s))"
  unfolding grows_def
proof (intro conjI)
  assume v: "valid s"
  show "valid (snd (new_set v s))"
    using v by (fastforce simp: valid_iff less_Suc_eq)
  show "posting (snd (new_set v s)) = posting s"
  proof
    fix k show "posting (snd (new_set v s)) k = posting s k"
      using valid_map_of[OF v, of k]
      by (auto simp: posting_def nth_append split: option.splits)
  qed
qed simp_all

lemma getitem_cases:
  assumes "getitem key s = (r, s')"
  obtains (bound) "map_of (inverted_index s) key = Some r" "s' = s"
  | (missing) "map_of (inverted_index s) key = None" "r = length (heap s)"
      "s' = \<lparr>inverted_index = inverted_index s @ [(key, length (heap s))], heap = heap s @ [{}]\<rparr>"
  using assms by (auto simp: getitem_def new_set_def split: option.splits)

lemma getitem_props:
  assumes v: "valid s" and g: "getitem key s = (r, s')"
  shows "grows s s'" and "r < length (heap s')" and "heap s' ! r = posting s key"
    and "keys s' = insert key (keys s)"
proof -
  from g show "grows s s'"
  proof (cases rule: getitem_cases)
    case bound
    then show ?thesis using v by (simp add: grows_refl)
  next
    case missing
    have "valid s'"
      using v missing by (fastforce simp: valid_iff less_Suc_eq)
    moreover have "posting s' = posting s"
    proof
      fix k show "posting s' k = posting s k"
        using valid_map_of[OF v, of k] missing
        by (auto simp: posting_def nth_append map_add_def split: option.splits)
    qed
    ultimately show ?thesis using missing by (simp add: grows_def)
  qed
  from g show "r < length (heap s')"
    by (cases rule: getitem_cases) (use v in \<open>auto dest: valid_map_of\<close>)
  from g show "heap s' ! r = posting s key"
    by (cases rule: getitem_cases) (auto simp: posting_def)
  from g show "keys s' = insert key (keys s)"
    by (cases rule: getitem_cases) (auto simp: keys_def dest!: map_of_SomeD intro: rev_image_eqI)
qed

lemma key_bound: "key \<in> keys s \<Longrightarrow> \<exists>r. map_of (inverted_index s) key = Some r"
  by (cases "map_of (inverted_index s) key") (auto simp: keys_def map_of_eq_None_iff)

lemma step_result_le:
  assumes "valid s" and "result < length (heap s)" and "getitem t s = (p, s1)"
  shows "result \<le> length (heap s1)"
  using assms(2) grows_length[OF getitem_props(1)[OF assms(1,3)]] by simp

lemma step_props:
  assumes v: "valid s" and res: "result < length (heap s)" and g: "getitem t s = (p, s1)"
  shows "grows s (snd (new_set (f (heap s1 ! result) (heap s1 ! p)) s1))"
    and "valid (snd (new_set (f (heap s1 ! result) (heap s1 ! p)) s1))"
    and "length (heap s1) < length (heap (snd (new_set (f (heap s1 ! result) (heap s1 ! p)) s1)))"
    and "heap (snd (new_set (f (heap s1 ! result) (heap s1 ! p)) s1)) ! length (heap s1)
           = f (heap s ! result) (posting s t)"
    and "posting (snd (new_set (f (heap s1 ! result) (heap s1 ! p)) s1)) = posting s"
    and "keys (snd (new_set (f (heap s1 ! result) (heap s1 ! p)) s1)) = insert t (keys s)"
    and "t \<in> keys s \<longrightarrow>
           inverted_index (snd (new_set (f (heap s1 ! result) (heap s1 ! p)) s1)) = inverted_index s"
proof -
  let ?s2 = "snd (new_set (f (heap s1 ! result) (heap s1 ! p)) s1)"
  note gp = getitem_props[OF v g]
  have v1: "valid s1" using gp(1) by (simp add: grows_def)
  have g12: "grows s1 ?s2" by (rule grows_new_set[OF v1])
  show g02: "grows s ?s2" by (rule grows_trans[OF gp(1) g12])
  show "valid ?s2" using g12 by (simp add: grows_def)
  show "length (heap s1) < length (heap ?s2)" by simp
  show "heap ?s2 ! length (heap s1) = f (heap s ! result) (posting s t)"
    using gp(3) grows_nth[OF gp(1) res] by simp
  show "posting ?s2 = posting s" using g02 by (simp add: grows_def)
  show "keys ?s2 = insert t (keys s)"
    using gp(4) by (simp add: keys_def)
  show "t \<in> keys s \<longrightarrow> inverted_index ?s2 = inverted_index s"
  proof
    assume "t \<in> keys s"
    then obtain r where "map_of (inverted_index s) t = Some r"
      using key_bound by blast
    then have "s1 = s" using g by (simp add: getitem_def)
    then show "inverted_index ?s2 = inverted_index s" by simp
  qed
qed

lemma and_loop_props:
  assumes "valid s" and "result < length (heap s)" and "and_loop terms result s = (r', s')"
  shows "grows s s' \<and> r' < length (heap s') \<and> result \<le> r' \<and>
         heap s' ! r' = foldl (\<inter>) (heap s ! result) (map (posting s) terms) \<and>
         keys s' = keys s \<union> set terms \<and>
         (set terms \<subseteq> keys s \<longrightarrow> inverted_index s' = inverted_index s)"
  using assms
proof (induction terms arbitrary: result s)
  case Nil
  then show ?case by (simp add: grows_refl)
next
  case (Cons t terms)
  obtain p s1 where g: "getitem t s = (p, s1)"
    by (cases "getitem t s")
  define s2 where "s2 = snd (new_set (heap s1 ! result \<inter> heap s1 ! p) s1)"
  have run: "and_loop terms (length (heap s1)) s2 = (r', s')"
    using Cons.prems(3) g by (simp add: s2_def split_beta)
  note st = step_props[OF Cons.prems(1,2) g, of "(\<inter>)", folded s2_def]
  note le = step_result_le[OF Cons.prems(1,2) g]
  from Cons.IH[OF st(2,3) run] show ?case
    using st(1,7) le by (auto simp: st(4,5,6) intro: grows_trans)
qed

lemma or_loop_props:
  assumes "valid s" and "result < length (heap s)" and "or_loop terms result s = (r', s')"
  shows "grows s s' \<and> r' < length (heap s') \<and> result \<le> r' \<and>
         heap s' ! r' = foldl (\<union>) (heap s ! result) (map (posting s) terms) \<and>
         keys s' = keys s \<union> set terms \<and>
         (set terms \<subseteq> keys s \<longrightarrow> inverted_index s' = inverted_index s)"
  using assms
proof (induction terms arbitrary: result s)
  case Nil
  then show ?case by (simp add: grows_refl)
next
  case (Cons t terms)
  obtain p s1 where g: "getitem t s = (p, s1)"
    by (cases "getitem t s")
  define s2 where "s2 = snd (new_set (heap s1 ! result \<union> heap s1 ! p) s1)"
  have run: "or_loop terms (length (heap s1)) s2 = (r', s')"
    using Cons.prems(3) g by (simp add: s2_def split_beta)
  note st = step_props[OF Cons.prems(1,2) g, of "(\<union>)", folded s2_def]
  note le = step_result_le[OF Cons.prems(1,2) g]
  from Cons.IH[OF st(2,3) run] show ?case
    using st(1,7) le by (auto simp: st(4,5,6) intro: grows_trans)
qed

lemma not_loop_props:
  assumes "valid s" and "result < length (heap s)" and "not_loop terms result s = (r', s')"
  shows "grows s s' \<and> r' < length (heap s') \<and> result \<le> r' \<and>
         heap s' ! r' = foldl (-) (heap s ! result) (map (posting s) terms) \<and>
         keys s' = keys s \<union> set terms \<and>
         (set terms \<subseteq> keys s \<longrightarrow> inverted_index s' = inverted_index s)"
  using assms
proof (induction terms arbitrary: result s)
  case Nil
  then show ?case by (simp add: grows_refl)
next
  case (Cons t terms)
  obtain p s1 where g: "getitem t s = (p, s1)"
    by (cases "getitem t s")
  define s2 where "s2 = snd (new_set (heap s1 ! result - heap s1 ! p) s1)"
  have run: "not_loop terms (length (heap s1)) s2 = (r', s')"
    using Cons.prems(3) g by (simp add: s2_def split_beta)
  note st = step_props[OF Cons.prems(1,2) g, of "(-)", folded s2_def]
  note le = step_result_le[OF Cons.prems(1,2) g]
  from Cons.IH[OF st(2,3) run] show ?case
    using st(1,7) le by (auto simp: st(4,5,6) intro: grows_trans)
qed


lemma foldl_inter: "foldl (\<inter>) A (map f ts) = A \<inter> (\<Inter>t \<in> set ts. f t)"
  by (induction ts arbitrary: A) auto

lemma foldl_union: "foldl (\<union>) A (map f ts) = A \<union> (\<Union>t \<in> set ts. f t)"
  by (induction ts arbitrary: A) auto

lemma foldl_minus: "foldl (-) A (map f ts) = A - (\<Union>t \<in> set ts. f t)"
  by (induction ts arbitrary: A) auto

section \<open>The searches\<close>

lemma new_set_value [simp]: "value_of (new_set v s) = v"
  by (simp add: value_of_def)

lemma boolean_and_search_props:
  assumes v: "valid s"
  shows "grows s (snd (boolean_and_search query s))"
    and "keys (snd (boolean_and_search query s)) = keys s \<union> set (preprocess query)"
    and "set (preprocess query) \<subseteq> keys s \<longrightarrow>
           inverted_index (snd (boolean_and_search query s)) = inverted_index s"
    and "value_of (boolean_and_search query s) =
           (if preprocess query = [] then {}
            else foldl (\<inter>) (posting s (hd (preprocess query)))
                   (map (posting s) (tl (preprocess query))))"
proof -
  let ?out = "boolean_and_search query s"
  have "grows s (snd ?out) \<and> keys (snd ?out) = keys s \<union> set (preprocess query) \<and>
        (set (preprocess query) \<subseteq> keys s \<longrightarrow> inverted_index (snd ?out) = inverted_index s) \<and>
        value_of ?out =
           (if preprocess query = [] then {}
            else foldl (\<inter>) (posting s (hd (preprocess query)))
                   (map (posting s) (tl (preprocess query))))"
  proof (cases "preprocess query")
    case Nil
    then show ?thesis
      using grows_new_set[OF v] by (simp add: boolean_and_search_def keys_def)
  next
    case (Cons t terms)
    obtain p s1 where g: "getitem t s = (p, s1)"
      by (cases "getitem t s")
    obtain r' s' where run: "and_loop terms p s1 = (r', s')"
      by (cases "and_loop terms p s1")
    have out: "?out = (r', s')"
      using Cons g run by (simp add: boolean_and_search_def)
    note gp = getitem_props[OF v g]
    have v1: "valid s1" using gp(1) by (simp add: grows_def)
    have p1: "posting s1 = posting s" using gp(1) by (simp add: grows_def)
    have same: "t \<in> keys s \<longrightarrow> inverted_index s1 = inverted_index s"
      using g key_bound[of t s] by (auto simp: getitem_def)
    from and_loop_props[OF v1 gp(2) run] show ?thesis
      using gp(1) same by (auto simp: out Cons value_of_def gp(3,4) p1 intro: grows_trans)
  qed
  then show "grows s (snd ?out)"
    and "keys (snd ?out) = keys s \<union> set (preprocess query)"
    and "set (preprocess query) \<subseteq> keys s \<longrightarrow> inverted_index (snd ?out) = inverted_index s"
    and "value_of ?out =
           (if preprocess query = [] then {}
            else foldl (\<inter>) (posting s (hd (preprocess query)))
                   (map (posting s) (tl (preprocess query))))"
    by blast+
qed

lemma boolean_or_search_props:
  assumes v: "valid s"
  shows "grows s (snd (boolean_or_search query s))"
    and "keys (snd (boolean_or_search query s)) = keys s \<union> set (preprocess query)"
    and "set (preprocess query) \<subseteq> keys s \<longrightarrow>
           inverted_index (snd (boolean_or_search query s)) = inverted_index s"
    and "value_of (boolean_or_search query s) =
           (if preprocess query = [] then {}
            else foldl (\<union>) {} (map (posting s) (preprocess query)))"
proof -
  let ?out = "boolean_or_search query s"
  let ?s0 = "snd (new_set {} s)"
  have "grows s (snd ?out) \<and> keys (snd ?out) = keys s \<union> set (preprocess query) \<and>
        (set (preprocess query) \<subseteq> keys s \<longrightarrow> inverted_index (snd ?out) = inverted_index s) \<and>
        value_of ?out =
           (if preprocess query = [] then {}
            else foldl (\<union>) {} (map (posting s) (preprocess query)))"
  proof (cases "preprocess query = []")
    case True
    then show ?thesis
      using grows_new_set[OF v] by (simp add: boolean_or_search_def keys_def)
  next
    case False
    obtain r' s' where run: "or_loop (preprocess query) (length (heap s)) ?s0 = (r', s')"
      by (cases "or_loop (preprocess query) (length (heap s)) ?s0")
    have out: "?out = (r', s')"
      using False run by (simp add: boolean_or_search_def split_beta)
    note g0 = grows_new_set[OF v, of "{}"]
    have v0: "valid ?s0" using g0 by (simp add: grows_def)
    have p0: "posting ?s0 = posting s" using g0 by (simp add: grows_def)
    have k0: "keys ?s0 = keys s" by (simp add: keys_def)
    have lt: "length (heap s) < length (heap ?s0)" by simp
    from or_loop_props[OF v0 lt run] show ?thesis
      using g0 False by (auto simp: out value_of_def p0 k0 intro: grows_trans)
  qed
  then show "grows s (snd ?out)"
    and "keys (snd ?out) = keys s \<union> set (preprocess query)"
    and "set (preprocess query) \<subseteq> keys s \<longrightarrow> inverted_index (snd ?out) = inverted_index s"
    and "value_of ?out =
           (if preprocess query = [] then {}
            else foldl (\<union>) {} (map (posting s) (preprocess query)))"
    by blast+
qed

lemma boolean_not_search_props:
  assumes v: "valid s"
  shows "grows s (snd (boolean_not_search query all_docs s))"
    and "keys (snd (boolean_not_search query all_docs s)) = keys s \<union> set (preprocess query)"
    and "set (preprocess query) \<subseteq> keys s \<longrightarrow>
           inverted_index (snd (boolean_not_search query all_docs s)) = inverted_index s"
    and "value_of (boolean_not_search query all_docs s) =
           (if preprocess query = [] then {}
            else foldl (-) (heap s ! all_docs) (map (posting s) (preprocess query)))"
    and "length (heap s) \<le> fst (boolean_not_search query all_docs s)"
proof -
  let ?out = "boolean_not_search query all_docs s"
  let ?s0 = "snd (new_set (heap s ! all_docs) s)"
  have "grows s (snd ?out) \<and> keys (snd ?out) = keys s \<union> set (preprocess query) \<and>
        (set (preprocess query) \<subseteq> keys s \<longrightarrow> inverted_index (snd ?out) = inverted_index s) \<and>
        value_of ?out =
           (if preprocess query = [] then {}
            else foldl (-) (heap s ! all_docs) (map (posting s) (preprocess query))) \<and>
        length (heap s) \<le> fst ?out"
  proof (cases "preprocess query = []")
    case True
    then show ?thesis
      using grows_new_set[OF v] by (simp add: boolean_not_search_def keys_def)
  next
    case False
    obtain r' s' where run: "not_loop (preprocess query) (length (heap s)) ?s0 = (r', s')"
      by (cases "not_loop (preprocess query) (length (heap s)) ?s0")
    have out: "?out = (r', s')"
      using False run by (simp add: boolean_not_search_def split_beta)
    note g0 = grows_new_set[OF v, of "heap s ! all_docs"]
    have v0: "valid ?s0" using g0 by (simp add: grows_def)
    have p0: "posting ?s0 = posting s" using g0 by (simp add: grows_def)
    have k0: "keys ?s0 = keys s" by (simp add: keys_def)
    have lt: "length (heap s) < length (heap ?s0)" by simp
    from not_loop_props[OF v0 lt run] show ?thesis
      using g0 False by (auto simp: out value_of_def p0 k0 intro: grows_trans)
  qed
  then show "grows s (snd ?out)"
    and "keys (snd ?out) = keys s \<union> set (preprocess query)"
    and "set (preprocess query) \<subseteq> keys s \<longrightarrow> inverted_index (snd ?out) = inverted_index s"
    and "value_of ?out =
           (if preprocess query = [] then {}
            else foldl (-) (heap s ! all_docs) (map (posting s) (preprocess query)))"
    and "length (heap s) \<le> fst ?out"
    by blast+
qed


lemma posting_missing: "t \<notin> keys s \<Longrightarrow> posting s t = {}"
  by (simp add: posting_def keys_def map_of_eq_None_iff[symmetric])

lemma scenario_eq:
  "scenario = \<lparr>inverted_index = [(''cat'', 1), (''sat'', 2), (''dog'', 3)],
     heap = [{''d1'', ''d2'', ''d3''}, {''d3'', ''d1''}, {''d2'', ''d1''}, {''d3'', ''d2''}]\<rparr>"
  by code_simp

lemma scenario_valid: "valid scenario"
  by (simp add: scenario_eq valid_def)


text \<open>
  C5. For a query with at least one term, the AND search returns the posting set of the
  first term intersected in turn with that of each following term, which is the
  intersection of the posting sets of all the terms of the query. A term that is not a
  key of the index has the empty posting set, so a query with such a term returns the
  empty set.
\<close>

theorem boolean_and_search_intersection:
  assumes "valid s" and "preprocess query \<noteq> []"
  shows "value_of (boolean_and_search query s) =
           foldl (\<inter>) (posting s (hd (preprocess query))) (map (posting s) (tl (preprocess query))) \<and>
         value_of (boolean_and_search query s) = (\<Inter>t \<in> set (preprocess query). posting s t) \<and>
         ((\<exists>t \<in> set (preprocess query). t \<notin> keys s) \<longrightarrow>
            value_of (boolean_and_search query s) = {})"
proof -
  obtain t terms where tt: "preprocess query = t # terms"
    using assms(2) by (cases "preprocess query") auto
  have fold: "value_of (boolean_and_search query s) =
           foldl (\<inter>) (posting s (hd (preprocess query))) (map (posting s) (tl (preprocess query)))"
    using boolean_and_search_props(4)[OF assms(1), of query] assms(2) by simp
  then have inter: "value_of (boolean_and_search query s) = (\<Inter>t \<in> set (preprocess query). posting s t)"
    by (simp add: tt foldl_inter)
  have "value_of (boolean_and_search query s) = {}" if "\<exists>t \<in> set (preprocess query). t \<notin> keys s"
  proof -
    from that obtain u where "u \<in> set (preprocess query)" "posting s u = {}"
      using posting_missing by blast
    then show ?thesis unfolding inter by blast
  qed
  with fold inter show ?thesis by blast
qed



theorem boolean_and_search_intersection_witness:
  "valid scenario \<and> preprocess ''cat sat'' \<noteq> [] \<and>
   value_of (boolean_and_search ''cat sat'' scenario) = {''d1''} \<and>
   ''zebra'' \<in> set (preprocess ''cat zebra'') \<and> ''zebra'' \<notin> keys scenario \<and>
   value_of (boolean_and_search ''cat zebra'' scenario) = {}"
proof -
  note v = scenario_valid
  have t1: "preprocess ''cat sat'' = [''cat'', ''sat'']" by code_simp
  have t2: "preprocess ''cat zebra'' = [''cat'', ''zebra'']" by code_simp
  have z: "''zebra'' \<notin> keys scenario"
    by (simp add: scenario_eq keys_def)
  have i: "posting scenario ''cat'' \<inter> posting scenario ''sat'' = {''d1''}"
    by (auto simp: scenario_eq posting_def)
  have "value_of (boolean_and_search ''cat sat'' scenario) = {''d1''}"
    using boolean_and_search_intersection[OF v, of "''cat sat''"] i by (simp add: t1)
  moreover have "\<exists>t \<in> set (preprocess ''cat zebra''). t \<notin> keys scenario"
    using z by (simp add: t2)
  with boolean_and_search_intersection[OF v, of "''cat zebra''", THEN conjunct2, THEN conjunct2]
  have "value_of (boolean_and_search ''cat zebra'' scenario) = {}"
    by (simp add: t2)
  ultimately show ?thesis
    using v z by (simp add: t1 t2)
qed

text \<open>
  C7. A query without terms (empty, or of stopwords and punctuation only) makes each of
  the three searches return the empty set, on every index and with every set of
  documents given to the NOT search, a non-empty one too.
\<close>

theorem empty_query_empty_result:
  assumes "preprocess query = []"
  shows "value_of (boolean_and_search query s) = {} \<and>
         value_of (boolean_or_search query s) = {} \<and>
         value_of (boolean_not_search query all_docs s) = {}"
  using assms
  by (simp add: boolean_and_search_def boolean_or_search_def boolean_not_search_def)

theorem empty_query_empty_result_witness:
  "preprocess ''The, and... (of)!'' = [] \<and> heap scenario ! 0 = {''d1'', ''d2'', ''d3''} \<and>
   value_of (boolean_and_search ''The, and... (of)!'' scenario) = {} \<and>
   value_of (boolean_or_search ''The, and... (of)!'' scenario) = {} \<and>
   value_of (boolean_not_search ''The, and... (of)!'' 0 scenario) = {}"
proof -
  have e: "preprocess ''The, and... (of)!'' = []" by code_simp
  have u: "heap scenario ! 0 = {''d1'', ''d2'', ''d3''}" by (simp add: scenario_eq)
  show ?thesis
    using empty_query_empty_result[OF e, of scenario 0] e u by simp
qed

text \<open>
  C10. For a query with exactly one term, the AND search and the OR search return the
  same set of documents.
\<close>

theorem single_term_and_eq_or:
  assumes "valid s" and "preprocess query = [t]"
  shows "value_of (boolean_and_search query s) = value_of (boolean_or_search query s)"
  using boolean_and_search_props(4)[OF assms(1), of query]
    boolean_or_search_props(4)[OF assms(1), of query] assms(2)
  by simp

theorem single_term_and_eq_or_witness:
  "valid scenario \<and> preprocess ''the Cat!'' = [''cat''] \<and>
   value_of (boolean_and_search ''the Cat!'' scenario) = value_of (boolean_or_search ''the Cat!'' scenario)"
proof -
  have t: "preprocess ''the Cat!'' = [''cat'']" by code_simp
  show ?thesis
    using single_term_and_eq_or[OF scenario_valid t] scenario_valid t by simp
qed

text \<open>
  C8. On every index, what the AND search returns for a query is a subset of what the
  OR search returns for it. For a query whose terms are \<open>t1\<close> and \<open>t2\<close> the two results
  are the intersection and the union of the posting sets of \<open>t1\<close> and \<open>t2\<close>; and the
  query that writes two terms with a space between them has these two terms.
\<close>

theorem and_subset_or:
  assumes "valid s"
  shows "value_of (boolean_and_search query s) \<subseteq> value_of (boolean_or_search query s) \<and>
         (preprocess query = [t1, t2] \<longrightarrow>
            value_of (boolean_and_search query s) = posting s t1 \<inter> posting s t2 \<and>
            value_of (boolean_or_search query s) = posting s t1 \<union> posting s t2) \<and>
         (is_term t1 \<and> is_term t2 \<longrightarrow> preprocess (t1 @ '' '' @ t2) = [t1, t2])"
proof -
  have two: "is_term t1 \<and> is_term t2 \<longrightarrow> preprocess (t1 @ '' '' @ t2) = [t1, t2]"
    using preprocess_two_terms by blast
  have sub: "value_of (boolean_and_search query s) \<subseteq> value_of (boolean_or_search query s)"
  proof (cases "preprocess query")
    case Nil
    then show ?thesis
      by (simp add: boolean_and_search_props(4)[OF assms] boolean_or_search_props(4)[OF assms])
  next
    case (Cons t terms)
    have a: "value_of (boolean_and_search query s) = posting s t \<inter> (\<Inter>u \<in> set terms. posting s u)"
      by (simp add: boolean_and_search_props(4)[OF assms] Cons foldl_inter)
    have b: "value_of (boolean_or_search query s) = posting s t \<union> (\<Union>u \<in> set terms. posting s u)"
      by (simp add: boolean_or_search_props(4)[OF assms] Cons foldl_union)
    show ?thesis
      unfolding a b by blast
  qed
  have pair: "preprocess query = [t1, t2] \<longrightarrow>
            value_of (boolean_and_search query s) = posting s t1 \<inter> posting s t2 \<and>
            value_of (boolean_or_search query s) = posting s t1 \<union> posting s t2"
    by (simp add: boolean_and_search_props(4)[OF assms] boolean_or_search_props(4)[OF assms])
  show ?thesis
    by (rule conjI[OF sub conjI[OF pair two]])
qed

theorem and_subset_or_witness:
  "valid scenario \<and> is_term ''cat'' \<and> is_term ''sat'' \<and>
   preprocess (''cat'' @ '' '' @ ''sat'') = [''cat'', ''sat''] \<and>
   value_of (boolean_and_search ''cat sat'' scenario) \<subseteq> value_of (boolean_or_search ''cat sat'' scenario) \<and>
   value_of (boolean_and_search ''cat sat'' scenario) = {''d1''} \<and>
   value_of (boolean_or_search ''cat sat'' scenario) = {''d1'', ''d2'', ''d3''}"
proof -
  have tm: "is_term ''cat''" "is_term ''sat''" by code_simp+
  have i: "posting scenario ''cat'' \<inter> posting scenario ''sat'' = {''d1''}"
    by (auto simp: scenario_eq posting_def)
  have u: "posting scenario ''cat'' \<union> posting scenario ''sat'' = {''d1'', ''d2'', ''d3''}"
    by (auto simp: scenario_eq posting_def)
  note th = and_subset_or[OF scenario_valid, of "''cat sat''" "''cat''" "''sat''"]
  from th tm have t: "preprocess ''cat sat'' = [''cat'', ''sat'']"
    by simp
  from th have "value_of (boolean_and_search ''cat sat'' scenario) \<subseteq> value_of (boolean_or_search ''cat sat'' scenario)"
    by (rule conjunct1)
  moreover from th t have "value_of (boolean_and_search ''cat sat'' scenario) = posting scenario ''cat'' \<inter> posting scenario ''sat''"
    and "value_of (boolean_or_search ''cat sat'' scenario) = posting scenario ''cat'' \<union> posting scenario ''sat''"
    by simp_all
  ultimately show ?thesis
    using scenario_valid tm t i u by simp
qed

text \<open>
  C3. The claim, that the NOT search returns the universe minus what the OR search
  returns for every query, fails for a query without terms: both searches return the
  empty set then, and the universe minus the empty set is the universe.
\<close>

theorem not_is_universe_minus_or_counterexample:
  "preprocess ''the'' = [] \<and> heap scenario ! 0 = {''d1'', ''d2'', ''d3''} \<and>
   value_of (boolean_not_search ''the'' 0 scenario) = {} \<and>
   heap scenario ! 0 - value_of (boolean_or_search ''the'' scenario) = {''d1'', ''d2'', ''d3''} \<and>
   value_of (boolean_not_search ''the'' 0 scenario)
     \<noteq> heap scenario ! 0 - value_of (boolean_or_search ''the'' scenario)"
proof -
  have e: "preprocess ''the'' = []" by code_simp
  have u: "heap scenario ! 0 = {''d1'', ''d2'', ''d3''}" by (simp add: scenario_eq)
  have n: "value_of (boolean_not_search ''the'' 0 scenario) = {}"
    by (simp add: boolean_not_search_def e)
  have o: "value_of (boolean_or_search ''the'' scenario) = {}"
    by (simp add: boolean_or_search_def e)
  show ?thesis
    unfolding n o u using e by simp
qed

text \<open>
  C3, amended. For every query with at least one term, on every index and for every
  universe, the NOT search returns the universe minus what the OR search returns.
\<close>

theorem not_is_universe_minus_or:
  assumes "valid s" and "preprocess query \<noteq> []"
  shows "value_of (boolean_not_search query all_docs s)
           = heap s ! all_docs - value_of (boolean_or_search query s)"
  using boolean_not_search_props(4)[OF assms(1), of query all_docs]
    boolean_or_search_props(4)[OF assms(1), of query] assms(2)
  by (simp add: foldl_minus foldl_union)

theorem not_is_universe_minus_or_witness:
  "valid scenario \<and> preprocess ''cat'' \<noteq> [] \<and>
   value_of (boolean_not_search ''cat'' 0 scenario) = {''d2''} \<and>
   heap scenario ! 0 - value_of (boolean_or_search ''cat'' scenario) = {''d2''}"
proof -
  have t: "preprocess ''cat'' = [''cat'']" by code_simp
  then have ne: "preprocess ''cat'' \<noteq> []" by simp
  have o: "value_of (boolean_or_search ''cat'' scenario) = {''d1'', ''d3''}"
    using boolean_or_search_props(4)[OF scenario_valid, of "''cat''"]
    by (auto simp: t scenario_eq posting_def)
  have d: "heap scenario ! 0 - value_of (boolean_or_search ''cat'' scenario) = {''d2''}"
    unfolding o by (auto simp: scenario_eq)
  show ?thesis
    using not_is_universe_minus_or[OF scenario_valid ne, of 0] scenario_valid ne d by simp
qed

text \<open>
  C9. What the NOT search returns is a subset of \<open>all_docs\<close>; the set object
  \<open>all_docs\<close> holds after the search what it held before; and the search returns
  another object than \<open>all_docs\<close>.
\<close>

theorem boolean_not_search_subset:
  assumes "valid s" and "all_docs < length (heap s)"
  shows "value_of (boolean_not_search query all_docs s) \<subseteq> heap s ! all_docs \<and>
         heap (snd (boolean_not_search query all_docs s)) ! all_docs = heap s ! all_docs \<and>
         fst (boolean_not_search query all_docs s) \<noteq> all_docs"
proof (intro conjI)
  show "value_of (boolean_not_search query all_docs s) \<subseteq> heap s ! all_docs"
    by (simp add: boolean_not_search_props(4)[OF assms(1)] foldl_minus)
  show "heap (snd (boolean_not_search query all_docs s)) ! all_docs = heap s ! all_docs"
    using boolean_not_search_props(1)[OF assms(1)] assms(2) by (rule grows_nth)
  show "fst (boolean_not_search query all_docs s) \<noteq> all_docs"
    using boolean_not_search_props(5)[OF assms(1), of query all_docs] assms(2) by simp
qed

theorem boolean_not_search_subset_witness:
  "valid scenario \<and> 0 < length (heap scenario) \<and>
   value_of (boolean_not_search ''cat zebra'' 0 scenario) \<subseteq> heap scenario ! 0 \<and>
   heap (snd (boolean_not_search ''cat zebra'' 0 scenario)) ! 0 = {''d1'', ''d2'', ''d3''} \<and>
   fst (boolean_not_search ''cat zebra'' 0 scenario) \<noteq> 0"
proof -
  have l: "0 < length (heap scenario)" by (simp add: scenario_eq)
  have u: "heap scenario ! 0 = {''d1'', ''d2'', ''d3''}" by (simp add: scenario_eq)
  show ?thesis
    using boolean_not_search_subset[OF scenario_valid l, of "''cat zebra''"] scenario_valid l u
    by simp
qed

text \<open>
  C1. The claim, that a search leaves the inverted index unchanged, fails for a query
  with a term that is not a key: \<open>inverted_index[term]\<close> on the \<open>defaultdict\<close> inserts
  the term, bound to a new empty set. Each of the three searches does so.
\<close>

theorem search_leaves_index_counterexample:
  "valid scenario \<and> inverted_index scenario = [(''cat'', 1), (''sat'', 2), (''dog'', 3)] \<and>
   inverted_index (snd (boolean_and_search ''zebra'' scenario))
     = [(''cat'', 1), (''sat'', 2), (''dog'', 3), (''zebra'', 4)] \<and>
   inverted_index (snd (boolean_or_search ''zebra'' scenario))
     = [(''cat'', 1), (''sat'', 2), (''dog'', 3), (''zebra'', 5)] \<and>
   inverted_index (snd (boolean_not_search ''zebra'' 0 scenario))
     = [(''cat'', 1), (''sat'', 2), (''dog'', 3), (''zebra'', 5)] \<and>
   inverted_index (snd (boolean_and_search ''zebra'' scenario)) \<noteq> inverted_index scenario \<and>
   inverted_index (snd (boolean_or_search ''zebra'' scenario)) \<noteq> inverted_index scenario \<and>
   inverted_index (snd (boolean_not_search ''zebra'' 0 scenario)) \<noteq> inverted_index scenario"
proof -
  have t: "preprocess ''zebra'' = [''zebra'']" by code_simp
  have i: "inverted_index scenario = [(''cat'', 1), (''sat'', 2), (''dog'', 3)]"
    by (simp add: scenario_eq)
  have a: "inverted_index (snd (boolean_and_search ''zebra'' scenario))
     = [(''cat'', 1), (''sat'', 2), (''dog'', 3), (''zebra'', 4)]"
    by (simp add: boolean_and_search_def t scenario_eq getitem_def new_set_def)
  have b: "inverted_index (snd (boolean_or_search ''zebra'' scenario))
     = [(''cat'', 1), (''sat'', 2), (''dog'', 3), (''zebra'', 5)]"
    by (simp add: boolean_or_search_def t scenario_eq getitem_def new_set_def)
  have c: "inverted_index (snd (boolean_not_search ''zebra'' 0 scenario))
     = [(''cat'', 1), (''sat'', 2), (''dog'', 3), (''zebra'', 5)]"
    by (simp add: boolean_not_search_def t scenario_eq getitem_def new_set_def)
  show ?thesis
    unfolding a b c i using scenario_valid by simp
qed

text \<open>
  C1, amended. A search changes no set object that was there and no item of the index
  that was there: the heap and the items before the search are prefixes of those after
  it, and every term has the posting set it had, a term that is not a key reading as
  the empty set. The keys after the search are the keys before it and the terms of the
  query; a term that was no key has the empty posting set. So the index is unchanged
  exactly when every term of the query was a key already.
\<close>

theorem search_frame:
  assumes "valid s"
    and "out = boolean_and_search query s \<or> out = boolean_or_search query s \<or>
         out = boolean_not_search query all_docs s"
  shows "prefix (heap s) (heap (snd out)) \<and>
         prefix (inverted_index s) (inverted_index (snd out)) \<and>
         posting (snd out) = posting s \<and>
         keys (snd out) = keys s \<union> set (preprocess query) \<and>
         (\<forall>t. t \<notin> keys s \<longrightarrow> posting (snd out) t = {}) \<and>
         (inverted_index (snd out) = inverted_index s \<longleftrightarrow> set (preprocess query) \<subseteq> keys s)"
proof -
  have g: "grows s (snd out)"
    and k: "keys (snd out) = keys s \<union> set (preprocess query)"
    and same: "set (preprocess query) \<subseteq> keys s \<longrightarrow> inverted_index (snd out) = inverted_index s"
    using assms(2) boolean_and_search_props(1-3)[OF assms(1), of query]
      boolean_or_search_props(1-3)[OF assms(1), of query]
      boolean_not_search_props(1-3)[OF assms(1), of query all_docs]
    by auto
  have p: "posting (snd out) = posting s"
    using g by (simp add: grows_def)
  have "set (preprocess query) \<subseteq> keys s" if "inverted_index (snd out) = inverted_index s"
  proof -
    from that have "keys (snd out) = keys s" by (simp add: keys_def)
    with k show ?thesis by blast
  qed
  with same have iff: "inverted_index (snd out) = inverted_index s \<longleftrightarrow> set (preprocess query) \<subseteq> keys s"
    by blast
  show ?thesis
    using g k iff by (simp add: grows_def p posting_missing)
qed

theorem search_frame_witness:
  "valid scenario \<and>
   prefix (heap scenario) (heap (snd (boolean_and_search ''cat zebra'' scenario))) \<and>
   prefix (inverted_index scenario) (inverted_index (snd (boolean_and_search ''cat zebra'' scenario))) \<and>
   posting (snd (boolean_and_search ''cat zebra'' scenario)) = posting scenario \<and>
   keys (snd (boolean_and_search ''cat zebra'' scenario)) = {''cat'', ''sat'', ''dog'', ''zebra''} \<and>
   inverted_index (snd (boolean_and_search ''cat zebra'' scenario)) \<noteq> inverted_index scenario \<and>
   inverted_index (snd (boolean_not_search ''cat dog'' 0 scenario)) = inverted_index scenario"
proof -
  have t: "preprocess ''cat zebra'' = [''cat'', ''zebra'']" by code_simp
  have t': "preprocess ''cat dog'' = [''cat'', ''dog'']" by code_simp
  have k: "keys scenario = {''cat'', ''sat'', ''dog''}"
    by (simp add: scenario_eq keys_def)
  note a = search_frame[OF scenario_valid, of "boolean_and_search ''cat zebra'' scenario"
      "''cat zebra''" 0, simplified t k]
  note n = search_frame[OF scenario_valid, of "boolean_not_search ''cat dog'' 0 scenario"
      "''cat dog''" 0, simplified t' k]
  show ?thesis
    using a n scenario_valid by auto
qed

section \<open>Building the index\<close>

text \<open>
  \<open>.add\<close> changes a set object in place, so building the index is right only because no
  two terms share their set object: the default factory gives each new key a new set.
\<close>

lemma getitem_bound:
  assumes "getitem key s = (r, s')"
  shows "map_of (inverted_index s') key = Some r"
  using assms by (cases rule: getitem_cases) (auto simp: map_add_def)

lemma getitem_unshared:
  assumes v: "valid s" and u: "unshared s" and g: "getitem key s = (r, s')"
  shows "unshared s'"
  using g
proof (cases rule: getitem_cases)
  case bound
  then show ?thesis using u by simp
next
  case missing
  have "length (heap s) \<notin> snd ` set (inverted_index s)"
    using v by (force simp: valid_iff)
  then show ?thesis using u missing by (simp add: unshared_def)
qed

lemma unshared_same_ref:
  assumes "unshared s" and "map_of (inverted_index s) k = Some r"
    and "map_of (inverted_index s) t = Some r"
  shows "k = t"
proof -
  have "inj_on snd (set (inverted_index s))"
    using assms(1) by (simp add: unshared_def distinct_map)
  moreover have "(k, r) \<in> set (inverted_index s)" "(t, r) \<in> set (inverted_index s)"
    using assms(2,3) by (auto dest: map_of_SomeD)
  ultimately show ?thesis by (fastforce simp: inj_on_def)
qed

lemma set_add_simps [simp]:
  "inverted_index (set_add r d s) = inverted_index s"
  "heap (set_add r d s) = (heap s)[r := insert d (heap s ! r)]"
  by (simp_all add: set_add_def)

lemma add_token_props:
  assumes v: "valid s" and u: "unshared s" and g: "getitem t s = (r, s1)"
  shows "valid (set_add r d s1)" and "unshared (set_add r d s1)"
    and "posting (set_add r d s1) k = (if k = t then insert d (posting s k) else posting s k)"
    and "keys (set_add r d s1) = insert t (keys s)"
proof -
  note gp = getitem_props[OF v g]
  have v1: "valid s1"
    using gp(1) by (simp add: grows_def)
  have p1: "posting s1 k = posting s k"
    using gp(1) by (simp add: grows_def)
  have u1: "unshared s1" by (rule getitem_unshared[OF v u g])
  have b: "map_of (inverted_index s1) t = Some r" by (rule getitem_bound[OF g])
  show "valid (set_add r d s1)"
    using v1 by (simp add: valid_def)
  show "unshared (set_add r d s1)"
    using u1 by (simp add: unshared_def)
  show "keys (set_add r d s1) = insert t (keys s)"
    using gp(4) by (simp add: keys_def)
  show "posting (set_add r d s1) k = (if k = t then insert d (posting s k) else posting s k)"
  proof (cases "map_of (inverted_index s1) k")
    case None
    then have "k \<noteq> t" using b by auto
    moreover have "posting (set_add r d s1) k = {}" "posting s1 k = {}"
      using None by (simp_all add: posting_def)
    ultimately show ?thesis
      using p1 by simp
  next
    case (Some r')
    have lt: "r' < length (heap s1)" by (rule valid_map_of[OF v1 Some])
    have a: "posting (set_add r d s1) k = (heap s1)[r := insert d (heap s1 ! r)] ! r'"
      using Some by (simp add: posting_def)
    have c: "posting s1 k = heap s1 ! r'"
      using Some by (simp add: posting_def)
    show ?thesis
    proof (cases "k = t")
      case True
      then have "r' = r" using Some b by simp
      then show ?thesis
        using True a c lt p1 by simp
    next
      case False
      have "r' \<noteq> r"
      proof
        assume "r' = r"
        then have "k = t" using unshared_same_ref[OF u1 _ b, of k] Some by simp
        then show False using False by simp
      qed
      then show ?thesis
        using False a c p1 by simp
    qed
  qed
qed

lemma add_tokens_props:
  assumes "valid s" and "unshared s"
  shows "valid (add_tokens d tokens s) \<and> unshared (add_tokens d tokens s) \<and>
         (\<forall>k. posting (add_tokens d tokens s) k
               = (if k \<in> set tokens then insert d (posting s k) else posting s k)) \<and>
         keys (add_tokens d tokens s) = keys s \<union> set tokens"
  using assms
proof (induction tokens arbitrary: s)
  case Nil
  then show ?case by simp
next
  case (Cons t tokens)
  obtain r s1 where g: "getitem t s = (r, s1)"
    by (cases "getitem t s")
  note st = add_token_props[OF Cons.prems g, of d]
  have run: "add_tokens d (t # tokens) s = add_tokens d tokens (set_add r d s1)"
    using g by simp
  from Cons.IH[OF st(1,2)] show ?case
    unfolding run by (auto simp: st(3,4))
qed

lemma add_documents_props:
  assumes "valid s" and "unshared s"
  shows "valid (add_documents items s) \<and> unshared (add_documents items s) \<and>
         (\<forall>k. posting (add_documents items s) k
               = posting s k \<union> {d. \<exists>text. (d, text) \<in> set items \<and> k \<in> set (preprocess text)}) \<and>
         keys (add_documents items s) = keys s \<union> (\<Union>(d, text) \<in> set items. set (preprocess text))"
  using assms
proof (induction items arbitrary: s)
  case Nil
  then show ?case by simp
next
  case (Cons item items)
  obtain d content where item: "item = (d, content)" by (cases item)
  note at = add_tokens_props[OF Cons.prems, of d "preprocess content"]
  have run: "add_documents (item # items) s = add_documents items (add_tokens d (preprocess content) s)"
    by (simp add: item)
  have v1: "valid (add_tokens d (preprocess content) s)" and u1: "unshared (add_tokens d (preprocess content) s)"
    using at by blast+
  have p1: "posting (add_tokens d (preprocess content) s) k
               = (if k \<in> set (preprocess content) then insert d (posting s k) else posting s k)" for k
    using at by blast
  have k1: "keys (add_tokens d (preprocess content) s) = keys s \<union> set (preprocess content)"
    using at by blast
  from Cons.IH[OF v1 u1] show ?case
    unfolding run by (auto simp: p1 k1 item)
qed

lemma create_inverted_index_props:
  "valid (create_inverted_index documents h)"
  "unshared (create_inverted_index documents h)"
  "posting (create_inverted_index documents h) k
     = {d. \<exists>text. (d, text) \<in> set documents \<and> k \<in> set (preprocess text)}"
  "keys (create_inverted_index documents h) = (\<Union>(d, text) \<in> set documents. set (preprocess text))"
proof -
  let ?e = "\<lparr>inverted_index = [], heap = h\<rparr>"
  have v: "valid ?e" by (simp add: valid_def)
  have u: "unshared ?e" by (simp add: unshared_def)
  have p: "posting ?e k = {}" by (simp add: posting_def)
  have k: "keys ?e = {}" by (simp add: keys_def)
  note ad = add_documents_props[OF v u, of documents]
  show "valid (create_inverted_index documents h)"
    "unshared (create_inverted_index documents h)"
    using ad by (simp_all add: create_inverted_index_def)
  show "posting (create_inverted_index documents h) k
     = {d. \<exists>text. (d, text) \<in> set documents \<and> k \<in> set (preprocess text)}"
    using ad p by (simp add: create_inverted_index_def)
  show "keys (create_inverted_index documents h) = (\<Union>(d, text) \<in> set documents. set (preprocess text))"
    using ad k by (simp add: create_inverted_index_def)
qed

text \<open>
  C4. In the index built from a document mapping, a document identifier is in the
  posting set of a term exactly when the term is among the tokens of that document's
  content. The keys of the index are the terms with a non-empty posting set, and the
  index built from the empty mapping has no item.
\<close>

theorem create_inverted_index_correct:
  assumes "distinct (map fst documents)"
  shows "(d \<in> posting (create_inverted_index documents h) t
           \<longleftrightarrow> (case map_of documents d of None \<Rightarrow> False | Some text \<Rightarrow> t \<in> set (preprocess text))) \<and>
         (t \<in> keys (create_inverted_index documents h)
           \<longleftrightarrow> (\<exists>d. d \<in> posting (create_inverted_index documents h) t)) \<and>
         inverted_index (create_inverted_index [] h) = []"
proof -
  have m: "(d, content) \<in> set documents \<longleftrightarrow> map_of documents d = Some content" for content
    using assms by (auto dest: map_of_SomeD)
  have "d \<in> posting (create_inverted_index documents h) t
           \<longleftrightarrow> (case map_of documents d of None \<Rightarrow> False | Some text \<Rightarrow> t \<in> set (preprocess text))"
    by (auto simp: create_inverted_index_props(3) m split: option.splits)
  moreover have "t \<in> keys (create_inverted_index documents h)
           \<longleftrightarrow> (\<exists>d. d \<in> posting (create_inverted_index documents h) t)"
    by (auto simp: create_inverted_index_props(3,4))
  moreover have "inverted_index (create_inverted_index [] h) = []"
    by (simp add: create_inverted_index_def)
  ultimately show ?thesis by blast
qed

theorem create_inverted_index_correct_witness:
  "distinct (map fst [(''d1'', ''the cat sat''), (''d2'', ''the dog sat''), (''d3'', ''cat and dog'')]) \<and>
   ''d1'' \<in> posting scenario ''cat'' \<and> ''cat'' \<in> set (preprocess ''the cat sat'') \<and>
   ''d2'' \<notin> posting scenario ''cat'' \<and> ''cat'' \<notin> set (preprocess ''the dog sat'') \<and>
   ''d1'' \<notin> posting scenario ''the'' \<and> ''the'' \<notin> set (preprocess ''the cat sat'')"
proof -
  let ?docs = "[(''d1'', ''the cat sat''), (''d2'', ''the dog sat''), (''d3'', ''cat and dog'')]"
  have dist: "distinct (map fst ?docs)" by simp
  have t1: "preprocess ''the cat sat'' = [''cat'', ''sat'']" by code_simp
  have t2: "preprocess ''the dog sat'' = [''dog'', ''sat'']" by code_simp
  note th = create_inverted_index_correct[OF dist, of _ "[{''d1'', ''d2'', ''d3''}]", folded scenario_def]
  have "''d1'' \<in> posting scenario ''cat''"
    using th[of "''d1''" "''cat''"] by (simp add: t1)
  moreover have "''d2'' \<notin> posting scenario ''cat''"
    using th[of "''d2''" "''cat''"] by (simp add: t2)
  moreover have "''d1'' \<notin> posting scenario ''the''"
    using th[of "''d1''" "''the''"] by (simp add: t1)
  ultimately show ?thesis
    using dist by (simp add: t1 t2)
qed

section \<open>The loader\<close>

lemma read_files_fails:
  "\<exists>f \<in> set filenames. read_fails env folder_path f \<Longrightarrow>
     isl (read_files env folder_path filenames documents)"
  by (induction filenames arbitrary: documents) (auto simp: read_fails_def split: sum.splits)

lemma read_files_first_failure:
  "find (read_fails env folder_path) filenames = Some f \<Longrightarrow>
   read_text env (path_join env folder_path f) = Inl e \<Longrightarrow>
     read_files env folder_path filenames documents = Inl e"
proof (induction filenames arbitrary: documents)
  case Nil
  then show ?case by simp
next
  case (Cons filename filenames)
  show ?case
  proof (cases "read_fails env folder_path filename")
    case True
    then have "f = filename" using Cons.prems(1) by simp
    then show ?thesis
      using True Cons.prems(2) by (simp add: read_fails_def)
  next
    case False
    then have later: "find (read_fails env folder_path) filenames = Some f"
      using Cons.prems(1) by simp
    show ?thesis
    proof (cases "endswith filename ''.txt''")
      case no: False
      then show ?thesis using Cons.IH[OF later Cons.prems(2)] by simp
    next
      case yes: True
      with False obtain content
        where "read_text env (path_join env folder_path filename) = Inr content"
        by (cases "read_text env (path_join env folder_path filename)") (auto simp: read_fails_def)
      then show ?thesis using yes Cons.IH[OF later Cons.prems(2)] by simp
    qed
  qed
qed

lemma read_files_succeeds:
  "\<forall>f \<in> set filenames. \<not> read_fails env folder_path f \<Longrightarrow>
     \<exists>ds. read_files env folder_path filenames documents = Inr ds \<and>
       (\<forall>f. map_of ds f =
          (if f \<in> set filenames \<and> endswith f ''.txt''
           then Some (projr (read_text env (path_join env folder_path f)))
           else map_of documents f))"
proof (induction filenames arbitrary: documents)
  case Nil
  then show ?case by simp
next
  case (Cons filename filenames)
  then have rest: "\<forall>f \<in> set filenames. \<not> read_fails env folder_path f"
    by simp
  show ?case
  proof (cases "endswith filename ''.txt''")
    case False
    with Cons.IH[OF rest, of documents] show ?thesis by auto
  next
    case True
    with Cons.prems obtain content
      where c: "read_text env (path_join env folder_path filename) = Inr content"
      by (cases "read_text env (path_join env folder_path filename)") (auto simp: read_fails_def)
    from Cons.IH[OF rest, of "AList.update filename content documents"]
    show ?thesis
      using True c by (auto simp: update_conv')
  qed
qed

text \<open>
  C2. The claim, that the caller can tell a failed load from a load of zero documents,
  fails: on a folder that cannot be listed the function returns the empty dict, which
  is what it returns on an empty folder.
\<close>

theorem load_failure_is_empty_mapping_counterexample:
  "listdir unreadable_env ''docs'' = Inl ''[Errno 2] No such file or directory'' \<and>
   listdir empty_env ''docs'' = Inr [] \<and>
   snd (load_documents_from_folder unreadable_env ''docs'') = [] \<and>
   snd (load_documents_from_folder empty_env ''docs'') = [] \<and>
   snd (load_documents_from_folder unreadable_env ''docs'')
     = snd (load_documents_from_folder empty_env ''docs'')"
  by (simp add: load_documents_from_folder_def try_load_def unreadable_env_def empty_env_def)

text \<open>
  C2, amended. The load never raises. When the folder cannot be listed it shows one
  error dialog with the message of that exception; when a listed \<open>.txt\<close> file cannot
  be read it shows one error dialog with the message of the exception of the first
  such file of the listing; in both cases it returns the empty dict, the value of a
  load of zero documents. When every listed \<open>.txt\<close> file is read, it shows no dialog
  and returns the dict that binds each of these file names to the file's content, and
  nothing else.
\<close>

theorem load_documents_from_folder_outcomes:
  "(listdir env folder_path = Inl e \<longrightarrow>
      load_documents_from_folder env folder_path = ([''Error reading documents: '' @ e], [])) \<and>
   (listdir env folder_path = Inr filenames \<and>
    find (read_fails env folder_path) filenames = Some f \<and>
    read_text env (path_join env folder_path f) = Inl e' \<longrightarrow>
      load_documents_from_folder env folder_path = ([''Error reading documents: '' @ e'], [])) \<and>
   (listdir env folder_path = Inr filenames \<and> (\<exists>f \<in> set filenames. read_fails env folder_path f) \<longrightarrow>
      (\<exists>f e'. find (read_fails env folder_path) filenames = Some f \<and>
         read_text env (path_join env folder_path f) = Inl e' \<and>
         load_documents_from_folder env folder_path = ([''Error reading documents: '' @ e'], []))) \<and>
   (listdir env folder_path = Inr filenames \<and> (\<forall>f \<in> set filenames. \<not> read_fails env folder_path f) \<longrightarrow>
      fst (load_documents_from_folder env folder_path) = [] \<and>
      (\<forall>f. map_of (snd (load_documents_from_folder env folder_path)) f =
         (if f \<in> set filenames \<and> endswith f ''.txt''
          then Some (projr (read_text env (path_join env folder_path f))) else None)))"
proof (intro conjI impI)
  assume "listdir env folder_path = Inl e"
  then show "load_documents_from_folder env folder_path = ([''Error reading documents: '' @ e], [])"
    by (simp add: load_documents_from_folder_def try_load_def)
next
  assume a: "listdir env folder_path = Inr filenames \<and>
    find (read_fails env folder_path) filenames = Some f \<and>
    read_text env (path_join env folder_path f) = Inl e'"
  then have "read_files env folder_path filenames [] = Inl e'"
    using read_files_first_failure by blast
  then show "load_documents_from_folder env folder_path = ([''Error reading documents: '' @ e'], [])"
    using a by (simp add: load_documents_from_folder_def try_load_def)
next
  assume a: "listdir env folder_path = Inr filenames \<and> (\<exists>f \<in> set filenames. read_fails env folder_path f)"
  then obtain g where g: "find (read_fails env folder_path) filenames = Some g"
    by (cases "find (read_fails env folder_path) filenames") (auto simp: find_None_iff)
  then have "read_fails env folder_path g"
    by (auto simp: find_Some_iff)
  then obtain m where m: "read_text env (path_join env folder_path g) = Inl m"
    by (cases "read_text env (path_join env folder_path g)") (auto simp: read_fails_def)
  have "read_files env folder_path filenames [] = Inl m"
    by (rule read_files_first_failure[OF g m])
  then have "load_documents_from_folder env folder_path = ([''Error reading documents: '' @ m], [])"
    using a by (simp add: load_documents_from_folder_def try_load_def)
  with g m show "\<exists>f e'. find (read_fails env folder_path) filenames = Some f \<and>
         read_text env (path_join env folder_path f) = Inl e' \<and>
         load_documents_from_folder env folder_path = ([''Error reading documents: '' @ e'], [])"
    by blast
next
  assume a: "listdir env folder_path = Inr filenames \<and> (\<forall>f \<in> set filenames. \<not> read_fails env folder_path f)"
  then obtain ds where ds: "read_files env folder_path filenames [] = Inr ds"
    and m: "\<forall>f. map_of ds f =
          (if f \<in> set filenames \<and> endswith f ''.txt''
           then Some (projr (read_text env (path_join env folder_path f)))
           else map_of [] f)"
    using read_files_succeeds[of filenames env folder_path "[]"] by blast
  have out: "load_documents_from_folder env folder_path = ([], ds)"
    using a ds by (simp add: load_documents_from_folder_def try_load_def)
  show "fst (load_documents_from_folder env folder_path) = []"
    by (simp add: out)
  show "\<forall>f. map_of (snd (load_documents_from_folder env folder_path)) f =
         (if f \<in> set filenames \<and> endswith f ''.txt''
          then Some (projr (read_text env (path_join env folder_path f))) else None)"
    using m by (simp add: out)
qed

theorem load_documents_from_folder_outcomes_witness:
  "listdir unreadable_env ''docs'' = Inl ''[Errno 2] No such file or directory'' \<and>
   load_documents_from_folder unreadable_env ''docs''
     = ([''Error reading documents: [Errno 2] No such file or directory''], []) \<and>
   listdir partly_unreadable_env ''docs'' = Inr [''a.txt'', ''notes.md'', ''b.txt'', ''c.txt''] \<and>
   find (read_fails partly_unreadable_env ''docs'') [''a.txt'', ''notes.md'', ''b.txt'', ''c.txt'']
     = Some ''b.txt'' \<and>
   read_text partly_unreadable_env (path_join partly_unreadable_env ''docs'' ''b.txt'')
     = Inl ''[Errno 13] Permission denied'' \<and>
   load_documents_from_folder partly_unreadable_env ''docs''
     = ([''Error reading documents: [Errno 13] Permission denied''], []) \<and>
   listdir readable_env ''docs'' = Inr [''a.txt'', ''notes.md''] \<and>
   \<not> read_fails readable_env ''docs'' ''a.txt'' \<and> \<not> read_fails readable_env ''docs'' ''notes.md'' \<and>
   fst (load_documents_from_folder readable_env ''docs'') = [] \<and>
   map_of (snd (load_documents_from_folder readable_env ''docs'')) ''a.txt'' = Some ''the cat sat'' \<and>
   map_of (snd (load_documents_from_folder readable_env ''docs'')) ''notes.md'' = None"
proof -
  have l1: "listdir unreadable_env ''docs'' = Inl ''[Errno 2] No such file or directory''"
    by (simp add: unreadable_env_def)
  have o1: "load_documents_from_folder unreadable_env ''docs''
     = ([''Error reading documents: [Errno 2] No such file or directory''], [])"
    using load_documents_from_folder_outcomes[of unreadable_env "''docs''"
        "''[Errno 2] No such file or directory''" "[]", THEN conjunct1] l1
    by simp
  have l2: "listdir partly_unreadable_env ''docs'' = Inr [''a.txt'', ''notes.md'', ''b.txt'', ''c.txt'']"
    by (simp add: partly_unreadable_env_def)
  have f2: "find (read_fails partly_unreadable_env ''docs'') [''a.txt'', ''notes.md'', ''b.txt'', ''c.txt'']
     = Some ''b.txt''"
    by (simp add: read_fails_def endswith_def suffix_def partly_unreadable_env_def)
  have r2: "read_text partly_unreadable_env (path_join partly_unreadable_env ''docs'' ''b.txt'')
     = Inl ''[Errno 13] Permission denied''"
    by (simp add: partly_unreadable_env_def)
  have o2: "load_documents_from_folder partly_unreadable_env ''docs''
     = ([''Error reading documents: '' @ ''[Errno 13] Permission denied''], [])"
    by (rule load_documents_from_folder_outcomes[of partly_unreadable_env "''docs''" "[]"
        "[''a.txt'', ''notes.md'', ''b.txt'', ''c.txt'']" "''b.txt''" "''[Errno 13] Permission denied''",
        THEN conjunct2, THEN conjunct1, THEN mp, OF conjI[OF l2 conjI[OF f2 r2]]])
  have l3: "listdir readable_env ''docs'' = Inr [''a.txt'', ''notes.md'']"
    by (simp add: readable_env_def)
  have n3: "\<not> read_fails readable_env ''docs'' ''a.txt''" "\<not> read_fails readable_env ''docs'' ''notes.md''"
    by (simp_all add: read_fails_def endswith_def suffix_def readable_env_def)
  then have all3: "\<forall>f \<in> set [''a.txt'', ''notes.md'']. \<not> read_fails readable_env ''docs'' f"
    by simp
  have e3: "endswith ''a.txt'' ''.txt''" "\<not> endswith ''notes.md'' ''.txt''"
    by (simp_all add: endswith_def suffix_def)
  have r3: "read_text readable_env (path_join readable_env ''docs'' ''a.txt'') = Inr ''the cat sat''"
    by (simp add: readable_env_def)
  note th3 = load_documents_from_folder_outcomes[of readable_env "''docs''" "[]"
      "[''a.txt'', ''notes.md'']", THEN conjunct2, THEN conjunct2, THEN conjunct2, rule_format,
      OF conjI[OF l3 all3]]
  have o3: "fst (load_documents_from_folder readable_env ''docs'') = []"
    using th3 by blast
  have m3: "map_of (snd (load_documents_from_folder readable_env ''docs'')) ''a.txt'' = Some ''the cat sat''"
    using th3[THEN conjunct2, THEN spec, of "''a.txt''"] e3 r3 by simp
  have m3': "map_of (snd (load_documents_from_folder readable_env ''docs'')) ''notes.md'' = None"
    using th3[THEN conjunct2, THEN spec, of "''notes.md''"] e3 by simp
  show ?thesis
    using l1 o1 l2 f2 r2 o2 l3 n3 o3 m3 m3' by simp
qed

end
